theory Spec2Isabelle
  imports Complex_Main "HOL-Library.Extended_Nat" "HOL-Library.Multiset"
begin

section \<open>Common types\<close>

type_synonym path = string

text \<open>
  Every \<^verbatim>\<open>throw\<close> of the sources is a value. The two subclasses of
  \<^verbatim>\<open>Error\<close> declared in \<^verbatim>\<open>claude-code.ts\<close> are kept apart from plain
  \<^verbatim>\<open>new Error(message)\<close>; \<open>SystemError\<close> is an error raised by the Node
  runtime (a failed \<^verbatim>\<open>readFile\<close>).
\<close>

datatype error =
    Error string
  | ClaudeSessionLimitError string
  | ClaudePromptLimitError string
  | SystemError string

section \<open>Strings and numbers of the JavaScript runtime\<close>

definition startsWith :: "string \<Rightarrow> string \<Rightarrow> bool" where
  "startsWith s p = (take (length p) s = p)"

definition endsWith :: "string \<Rightarrow> string \<Rightarrow> bool" where
  "endsWith s p = (length p \<le> length s \<and> drop (length s - length p) s = p)"

fun String_includes :: "string \<Rightarrow> string \<Rightarrow> bool" where
  "String_includes [] p = (p = [])"
| "String_includes (c # cs) p = (startsWith (c # cs) p \<or> String_includes cs p)"

definition newline :: char where
  "newline = CHR 0x0A"

definition digit :: "nat \<Rightarrow> char" where
  "digit n = char_of (48 + n)"

fun show_nat :: "nat \<Rightarrow> string" where
  "show_nat n = (if n < 10 then [digit n] else show_nat (n div 10) @ [digit (n mod 10)])"

declare show_nat.simps [simp del]

text \<open>\<^verbatim>\<open>Number.prototype.toString\<close> on an integer.\<close>

definition toString :: "int \<Rightarrow> string" where
  "toString i = (if i < 0 then ''-'' @ show_nat (nat (- i)) else show_nat (nat i))"

definition padStart :: "nat \<Rightarrow> char \<Rightarrow> string \<Rightarrow> string" where
  "padStart n c s = replicate (n - length s) c @ s"

text \<open>\<^verbatim>\<open>s.split(c)\<close> for a one-character separator: never the empty array.\<close>

fun split :: "char \<Rightarrow> string \<Rightarrow> string list" where
  "split c [] = [[]]"
| "split c (x # xs) =
     (if x = c then [] # split c xs
      else (case split c xs of [] \<Rightarrow> [[x]] | l # ls \<Rightarrow> (x # l) # ls))"

fun join :: "string \<Rightarrow> string list \<Rightarrow> string" where
  "join sep [] = []"
| "join sep [x] = x"
| "join sep (x # y # ys) = x @ sep @ join sep (y # ys)"

text \<open>
  \<^verbatim>\<open>s.replace(pattern, replacement)\<close> with a string pattern: the first
  occurrence only (the replacement used in the sources is the empty string,
  which holds no \<^verbatim>\<open>$\<close> pattern).
\<close>

fun replace :: "string \<Rightarrow> string \<Rightarrow> string \<Rightarrow> string" where
  "replace [] pat rep = (if pat = [] then rep else [])"
| "replace (c # cs) pat rep =
     (if startsWith (c # cs) pat then rep @ drop (length pat) (c # cs)
      else c # replace cs pat rep)"

text \<open>\<^verbatim>\<open>console-colors.ts\<close>\<close>

definition red :: "string \<Rightarrow> string" where
  "red text = [CHR 0x1B] @ ''[31m'' @ text @ [CHR 0x1B] @ ''[0m''"

text \<open>\<^verbatim>\<open>array.map(f)\<close> where \<open>f\<close> may throw: the first failure ends the map.\<close>

fun map_throwing :: "('a \<Rightarrow> error + 'b) \<Rightarrow> 'a list \<Rightarrow> error + 'b list" where
  "map_throwing f [] = Inr []"
| "map_throwing f (x # xs) =
     (case f x of
        Inl e \<Rightarrow> Inl e
      | Inr y \<Rightarrow> (case map_throwing f xs of Inl e \<Rightarrow> Inl e | Inr ys \<Rightarrow> Inr (y # ys)))"

text \<open>The file system: the content of every file that exists.\<close>

type_synonym filesystem = "path \<rightharpoonup> string"

definition readFile :: "filesystem \<Rightarrow> path \<Rightarrow> error + string" where
  "readFile fs p =
     (case fs p of
        None \<Rightarrow>
          Inl (SystemError (''ENOENT: no such file or directory, open '' @ [CHR 0x27] @ p @ [CHR 0x27]))
      | Some content \<Rightarrow> Inr content)"

definition writeFile :: "filesystem \<Rightarrow> path \<Rightarrow> string \<Rightarrow> filesystem" where
  "writeFile fs p content = fs(p \<mapsto> content)"

section \<open>Project\<close>

text \<open>
  \<^verbatim>\<open>utils/project-workdir.ts\<close>: the fields of \<^verbatim>\<open>ProjectData\<close> that the
  repair loop reads. The getter \<^verbatim>\<open>language\<close> throws when the field is unset.
\<close>

datatype Language = Javascript | Typescript

record Project =
  project_path :: string
  phase :: nat
  language :: "Language option"

definition Project_language :: "Project \<Rightarrow> error + Language" where
  "Project_language project =
     (case language project of
        None \<Rightarrow> Inl (Error ''language is not set.'')
      | Some l \<Rightarrow> Inr l)"

definition Language_name :: "Language \<Rightarrow> string" where
  "Language_name l = (case l of Javascript \<Rightarrow> ''javascript'' | Typescript \<Rightarrow> ''typescript'')"

section \<open>Diagnostic aggregator\<close>

text \<open>
  The type checker's side (\<^verbatim>\<open>typescript\<close> package). A \<^verbatim>\<open>SourceFile\<close> is its
  name and its position table \<^verbatim>\<open>getLineAndCharacterOfPosition\<close>, which
  answers with a 0-based line and a 0-based character. A \<^verbatim>\<open>Diagnostic\<close>
  may lack its file and its start; its message text is taken as already
  flattened by \<^verbatim>\<open>flattenDiagnosticMessageText\<close>.
\<close>

datatype DiagnosticCategory = Warning | ErrorCategory | Suggestion | Message

record SourceFile =
  fileName :: path
  isDeclarationFile :: bool
  getLineAndCharacterOfPosition :: "nat \<Rightarrow> nat \<times> nat"

record Diagnostic =
  category :: DiagnosticCategory
  reportsUnnecessary :: bool
  diagnostic_file :: "SourceFile option"
  start :: "nat option"
  messageText :: string
  diagnostic_code :: int

text \<open>
  A \<^verbatim>\<open>Program\<close>: its source files and the answer of
  \<^verbatim>\<open>getPreEmitDiagnostics(program, sourceFile?)\<close>.
\<close>

record Program =
  getSourceFiles :: "SourceFile list"
  getPreEmitDiagnostics :: "path option \<Rightarrow> Diagnostic list"

definition getSourceFile :: "Program \<Rightarrow> path \<Rightarrow> SourceFile option" where
  "getSourceFile program f = find (\<lambda>sf. fileName sf = f) (getSourceFiles program)"

text \<open>\<^verbatim>\<open>utils/typescript.ts\<close>\<close>

definition getDiagnostics :: "Program \<Rightarrow> path option \<Rightarrow> error + Diagnostic list" where
  "getDiagnostics program fileOpt =
     (case fileOpt of
        None \<Rightarrow> Inr (getPreEmitDiagnostics program None)
      | Some f \<Rightarrow>
          (case getSourceFile program f of
             None \<Rightarrow> Inl (Error (''File '' @ [CHR 0x27] @ f @ [CHR 0x27] @ '' not found in the program.''))
           | Some sourceFile \<Rightarrow> Inr (getPreEmitDiagnostics program (Some f))))"

definition filterErrors :: "Diagnostic list \<Rightarrow> Diagnostic list" where
  "filterErrors diagnostics =
     filter (\<lambda>d. category d = ErrorCategory \<and> \<not> reportsUnnecessary d) diagnostics"

definition getTsErrors :: "Program \<Rightarrow> path option \<Rightarrow> error + Diagnostic list" where
  "getTsErrors program fileOpt =
     (case getDiagnostics program fileOpt of
        Inl e \<Rightarrow> Inl e
      | Inr diagnostics \<Rightarrow> Inr (filterErrors diagnostics))"

text \<open>
  The linter's side (\<^verbatim>\<open>eslint\<close> package): \<^verbatim>\<open>eslint.lintFiles([filePath])\<close>
  answers with results, each a file path and its messages; a message has
  severity 1 (warning) or 2 (error).
\<close>

record LintMessage =
  message_line :: int
  message_column :: int
  message_text :: string
  message_ruleId :: "string option"
  message_severity :: nat

record LintResult =
  result_filePath :: path
  messages :: "LintMessage list"

text \<open>\<^verbatim>\<open>utils/eslint.ts\<close>\<close>

record ESLintError =
  eslint_filePath :: path
  eslint_line :: int
  eslint_column :: int
  eslint_message :: string
  ruleId :: "string option"
  severity :: nat

definition getESLintErrorsForFile ::
  "(path \<Rightarrow> error + LintResult list) \<Rightarrow> path \<Rightarrow> error + ESLintError list" where
  "getESLintErrorsForFile lintFiles fp =
     (case lintFiles fp of
        Inl e \<Rightarrow> Inl e
      | Inr results \<Rightarrow>
          Inr (concat (map (\<lambda>result.
                 map (\<lambda>m. \<lparr>eslint_filePath = result_filePath result,
                            eslint_line = message_line m,
                            eslint_column = message_column m,
                            eslint_message = message_text m,
                            ruleId = message_ruleId m,
                            severity = message_severity m\<rparr>)
                     (messages result))
               results)))"

definition getProjectSourceFiles :: "Program \<Rightarrow> path list" where
  "getProjectSourceFiles program =
     map fileName
       (filter (\<lambda>sf. endsWith (fileName sf) ''.ts'' \<and> \<not> String_includes (fileName sf) ''node_modules'')
          (getSourceFiles program))"

fun getAllESLintErrors_loop ::
  "(path \<Rightarrow> error + LintResult list) \<Rightarrow> path list \<Rightarrow> ESLintError list \<Rightarrow> error + ESLintError list" where
  "getAllESLintErrors_loop lintFiles [] allErrors = Inr allErrors"
| "getAllESLintErrors_loop lintFiles (fp # rest) allErrors =
     (case getESLintErrorsForFile lintFiles fp of
        Inl e \<Rightarrow> Inl e
      | Inr errors \<Rightarrow> getAllESLintErrors_loop lintFiles rest (allErrors @ errors))"

definition getAllESLintErrors ::
  "(path \<Rightarrow> error + LintResult list) \<Rightarrow> Program \<Rightarrow> error + ESLintError list" where
  "getAllESLintErrors lintFiles program =
     getAllESLintErrors_loop lintFiles (getProjectSourceFiles program) []"

definition getESLintErrors ::
  "(path \<Rightarrow> error + LintResult list) \<Rightarrow> Program \<Rightarrow> path option \<Rightarrow> error + ESLintError list" where
  "getESLintErrors lintFiles program filePathOpt =
     (case filePathOpt of
        Some fp \<Rightarrow> getESLintErrorsForFile lintFiles fp
      | None \<Rightarrow> getAllESLintErrors lintFiles program)"

text \<open>\<^verbatim>\<open>utils/project-errors.ts\<close>\<close>

datatype ErrorSource = SourceTypescript | SourceEslint

datatype ErrorCode = CodeNumber int | CodeString string | CodeNull

record ProjectError =
  source :: ErrorSource
  filePath :: path
  line :: int
  column :: int
  message :: string
  code :: ErrorCode

definition convertTsDiagnostic :: "Diagnostic \<Rightarrow> error + ProjectError" where
  "convertTsDiagnostic diagnostic =
     (case (diagnostic_file diagnostic, start diagnostic) of
        (Some f, Some s) \<Rightarrow>
          (case getLineAndCharacterOfPosition f s of
             (l, character) \<Rightarrow>
               Inr \<lparr>source = SourceTypescript,
                    filePath = fileName f,
                    line = int l + 1,
                    column = int character + 1,
                    message = messageText diagnostic,
                    code = CodeNumber (diagnostic_code diagnostic)\<rparr>)
      | _ \<Rightarrow> Inl (Error ''Diagnostic must have file and start properties''))"

definition convertESLintError :: "ESLintError \<Rightarrow> ProjectError" where
  "convertESLintError e =
     \<lparr>source = SourceEslint,
      filePath = eslint_filePath e,
      line = eslint_line e,
      column = eslint_column e,
      message = eslint_message e,
      code = (case ruleId e of None \<Rightarrow> CodeNull | Some r \<Rightarrow> CodeString r)\<rparr>"

text \<open>
  The two checkers as \<^verbatim>\<open>getErrors\<close> reaches them: the watch program of
  the project and the configured \<^verbatim>\<open>ESLint\<close> instance.
\<close>

record Checkers =
  program :: Program
  lintFiles :: "path \<Rightarrow> error + LintResult list"

definition getErrors :: "Project \<Rightarrow> Checkers \<Rightarrow> path option \<Rightarrow> error + ProjectError list" where
  "getErrors project checkers fileOpt =
     (case getTsErrors (program checkers) fileOpt of
        Inl e \<Rightarrow> Inl e
      | Inr tsErrors \<Rightarrow>
          (case map_throwing convertTsDiagnostic tsErrors of
             Inl e \<Rightarrow> Inl e
           | Inr projectErrors \<Rightarrow>
               if phase project = 1 then Inr projectErrors
               else
                 (case Project_language project of
                    Inl e \<Rightarrow> Inl e
                  | Inr l \<Rightarrow>
                      if l = Javascript then Inr projectErrors
                      else
                        (case getESLintErrors (lintFiles checkers) (program checkers) fileOpt of
                           Inl e \<Rightarrow> Inl e
                         | Inr eslintErrors \<Rightarrow>
                             Inr (projectErrors @ map convertESLintError eslintErrors)))))"

text \<open>
  \<^verbatim>\<open>groupErrorsByFile\<close> fills a \<^verbatim>\<open>Record<string, ProjectError[]>\<close>; its
  keys are absolute file paths, which \<^verbatim>\<open>Object.keys\<close> lists in insertion
  order.
\<close>

fun groupErrorsByFile_loop ::
  "ProjectError list \<Rightarrow> (path \<times> ProjectError list) list \<Rightarrow> (path \<times> ProjectError list) list" where
  "groupErrorsByFile_loop [] result = result"
| "groupErrorsByFile_loop (e # rest) result =
     (case map_of result (filePath e) of
        Some existing \<Rightarrow>
          groupErrorsByFile_loop rest
            (map (\<lambda>(k, v). if k = filePath e then (k, v @ [e]) else (k, v)) result)
      | None \<Rightarrow> groupErrorsByFile_loop rest (result @ [(filePath e, [e])]))"

definition groupErrorsByFile :: "ProjectError list \<Rightarrow> (path \<times> ProjectError list) list" where
  "groupErrorsByFile errors = groupErrorsByFile_loop errors []"

definition Object_keys :: "('k \<times> 'v) list \<Rightarrow> 'k list" where
  "Object_keys r = map fst r"

section \<open>Repair iteration controller: the iteration cap\<close>

text \<open>
  \<^verbatim>\<open>src/agents/errors/fix-errors.ts\<close>:
  \<^verbatim>\<open>const MAX_ITERATIONS_PER_100_ERRORS = 5;\<close> and
  \<^verbatim>\<open>calculateMaxIterations\<close>. The argument is the length of an array, a
  non-negative integer below \<open>2^32\<close>; on such values the double-precision
  product is exact and \<^verbatim>\<open>Math.floor(x / 100)\<close> is integer division.
\<close>

definition MAX_ITERATIONS_PER_100_ERRORS :: nat where
  "MAX_ITERATIONS_PER_100_ERRORS = 5"

definition calculateMaxIterations :: "nat \<Rightarrow> nat" where
  "calculateMaxIterations initialErrorCount =
     (if initialErrorCount < 100 then MAX_ITERATIONS_PER_100_ERRORS
      else (initialErrorCount * MAX_ITERATIONS_PER_100_ERRORS) div 100)"

text \<open>
  The formula as the specification words it, for comparison:
  \<open>cap = 5\<close> below 100, else \<open>ceil(count * 5 / 100)\<close>.
\<close>

definition spec_cap :: "nat \<Rightarrow> nat" where
  "spec_cap n = (if n < 100 then 5 else nat \<lceil>real (n * 5) / 100\<rceil>)"

section \<open>File schedule\<close>

text \<open>
  A JavaScript \<^verbatim>\<open>Set<string>\<close> iterates in insertion order and holds no
  duplicates: a list without repetitions, new elements appended at the end.
\<close>

definition Set_add :: "'a \<Rightarrow> 'a list \<Rightarrow> 'a list" where
  "Set_add x xs = (if x \<in> set xs then xs else xs @ [x])"

definition Set_delete :: "'a \<Rightarrow> 'a list \<Rightarrow> 'a list" where
  "Set_delete x xs = filter (\<lambda>y. y \<noteq> x) xs"

definition Set_has :: "'a \<Rightarrow> 'a list \<Rightarrow> bool" where
  "Set_has x xs = (x \<in> set xs)"

definition new_Set :: "'a list \<Rightarrow> 'a list" where
  "new_Set xs = foldl (\<lambda>s x. Set_add x s) [] xs"

definition Set_union :: "'a list \<Rightarrow> 'a list \<Rightarrow> 'a list" where
  "Set_union xs ys = foldl (\<lambda>s y. Set_add y s) xs ys"

text \<open>
  \<^verbatim>\<open>class FileQueue\<close> (\<^verbatim>\<open>utils/file-queue.ts\<close>). The field
  \<open>dependencies\<close> is the map held by the \<^verbatim>\<open>DependencyGraph\<close>, each value
  already turned into an array as \<^verbatim>\<open>DependencyGraph.get\<close> does with
  \<^verbatim>\<open>Array.from\<close>.
\<close>

record FileQueue =
  dependencies :: "path \<rightharpoonup> path list"
  unprocessedFiles :: "path list"
  processingFiles :: "path list"

definition new_FileQueue :: "(path \<rightharpoonup> path list) \<Rightarrow> path list \<Rightarrow> FileQueue" where
  "new_FileQueue graph files =
     \<lparr>dependencies = graph, unprocessedFiles = new_Set files, processingFiles = []\<rparr>"

definition DependencyGraph_get :: "(path \<rightharpoonup> path list) \<Rightarrow> path \<Rightarrow> error + path list" where
  "DependencyGraph_get graph fp =
     (case graph fp of
        None \<Rightarrow> Inl (Error (''No dependencies found for file: '' @ fp))
      | Some deps \<Rightarrow> Inr deps)"

definition countUnprocessedDependencies :: "FileQueue \<Rightarrow> path \<Rightarrow> error + nat" where
  "countUnprocessedDependencies q fp =
     (case DependencyGraph_get (dependencies q) fp of
        Inl e \<Rightarrow> Inl e
      | Inr fileDeps \<Rightarrow>
          Inr (length (filter
                 (\<lambda>dep. Set_has dep (Set_union (unprocessedFiles q) (processingFiles q)))
                 fileDeps)))"

text \<open>
  The \<^verbatim>\<open>for ... of\<close> loop of \<^verbatim>\<open>selectFileWithLeastDependencies\<close> over the
  files still to visit, with the loop variables \<open>bestFile\<close> and \<open>minDeps\<close>;
  \<open>minDeps\<close> starts at \<^verbatim>\<open>Number.POSITIVE_INFINITY\<close>.
\<close>

fun selectFileWithLeastDependencies_loop :: "FileQueue \<Rightarrow> path list \<Rightarrow> path option \<Rightarrow> enat \<Rightarrow> error + path option" where
  "selectFileWithLeastDependencies_loop q [] bestFile minDeps = Inr bestFile"
| "selectFileWithLeastDependencies_loop q (fp # rest) bestFile minDeps =
     (case countUnprocessedDependencies q fp of
        Inl e \<Rightarrow> Inl e
      | Inr deps \<Rightarrow>
          if enat deps < minDeps then selectFileWithLeastDependencies_loop q rest (Some fp) (enat deps)
          else selectFileWithLeastDependencies_loop q rest bestFile minDeps)"

definition selectFileWithLeastDependencies :: "FileQueue \<Rightarrow> error + path option" where
  "selectFileWithLeastDependencies q = selectFileWithLeastDependencies_loop q (unprocessedFiles q) None \<infinity>"

definition shift :: "FileQueue \<Rightarrow> error + (path \<times> FileQueue)" where
  "shift q =
     (case selectFileWithLeastDependencies q of
        Inl e \<Rightarrow> Inl e
      | Inr None \<Rightarrow> Inl (Error ''No more files to process'')
      | Inr (Some file) \<Rightarrow>
          Inr (file, q\<lparr>unprocessedFiles := Set_delete file (unprocessedFiles q),
                       processingFiles := Set_add file (processingFiles q)\<rparr>))"

definition markAsProcessed :: "path \<Rightarrow> FileQueue \<Rightarrow> FileQueue" where
  "markAsProcessed fp q = q\<lparr>processingFiles := Set_delete fp (processingFiles q)\<rparr>"

definition hasUnprocessedFiles :: "FileQueue \<Rightarrow> bool" where
  "hasUnprocessedFiles q = (length (unprocessedFiles q) > 0)"

text \<open>
  The number of dependencies of a file that are still unprocessed or in
  progress, as a plain function for files that the graph indexes.
\<close>

definition unresolved :: "FileQueue \<Rightarrow> path \<Rightarrow> nat" where
  "unresolved q f =
     (case countUnprocessedDependencies q f of Inl e \<Rightarrow> 0 | Inr n \<Rightarrow> n)"

text \<open>
  The files of \<open>fs\<close> whose count \<open>c\<close> is below the bound \<open>m\<close> and least
  among \<open>fs\<close>, in the order of \<open>fs\<close>.
\<close>

definition firstLeast :: "('a \<Rightarrow> nat) \<Rightarrow> enat \<Rightarrow> 'a list \<Rightarrow> 'a list" where
  "firstLeast c m fs = filter (\<lambda>f. enat (c f) < m \<and> (\<forall>g \<in> set fs. c f \<le> c g)) fs"

section \<open>Concurrency orchestrator\<close>

text \<open>
  \<^verbatim>\<open>FixProjectErrorsAgent\<close> (\<^verbatim>\<open>agents/errors/fix-project-errors.ts\<close>).
  \<^verbatim>\<open>execute\<close> hands to \<^verbatim>\<open>fixErrorsInAllFiles\<close> the keys of
  \<^verbatim>\<open>getErrorsPerFile\<close>: the files that have a diagnostic.
\<close>

definition getErrorsPerFile :: "Project \<Rightarrow> Checkers \<Rightarrow> error + (path \<times> ProjectError list) list" where
  "getErrorsPerFile project checkers =
     (case getErrors project checkers None of
        Inl e \<Rightarrow> Inl e
      | Inr errors \<Rightarrow> Inr (groupErrorsByFile errors))"

definition errorFiles :: "ProjectError list \<Rightarrow> path list" where
  "errorFiles errors = Object_keys (groupErrorsByFile errors)"

definition maxConcurrency :: "Project \<Rightarrow> nat" where
  "maxConcurrency project = (if phase project = 1 then 10 else 1)"

definition agentCount :: "Project \<Rightarrow> path list \<Rightarrow> nat" where
  "agentCount project files = min (maxConcurrency project) (length files)"

text \<open>
  The \<^verbatim>\<open>for\<close> loop of \<^verbatim>\<open>fixErrorsInAllFiles\<close>: every call of
  \<^verbatim>\<open>processFileFromQueue\<close> runs \<^verbatim>\<open>fileQueue.shift()\<close> at once, before its
  first \<^verbatim>\<open>await\<close>, so the first \<open>agentCount\<close> files leave the queue in a row.
  A \<^verbatim>\<open>shift\<close> that throws leaves the queue as it was, so every later call
  of the loop fails in the same way and \<^verbatim>\<open>Promise.all\<close> rejects with the
  first error.
\<close>

fun startAgents :: "nat \<Rightarrow> FileQueue \<Rightarrow> error + (path list \<times> FileQueue)" where
  "startAgents 0 q = Inr ([], q)"
| "startAgents (Suc n) q =
     (case shift q of
        Inl e \<Rightarrow> Inl e
      | Inr (f, q1) \<Rightarrow>
          (case startAgents n q1 of
             Inl e \<Rightarrow> Inl e
           | Inr (fs, q2) \<Rightarrow> Inr (f # fs, q2)))"

lemma selectLoop_member:
  "selectFileWithLeastDependencies_loop q fs best m = Inr (Some f) \<Longrightarrow> best = Some f \<or> f \<in> set fs"
proof (induction fs arbitrary: best m)
  case Nil
  then show ?case by simp
next
  case (Cons a fs)
  show ?case
  proof (cases "countUnprocessedDependencies q a")
    case (Inl e)
    with Cons.prems show ?thesis by simp
  next
    case (Inr deps)
    show ?thesis
    proof (cases "enat deps < m")
      case True
      with Inr Cons.prems have "selectFileWithLeastDependencies_loop q fs (Some a) (enat deps) = Inr (Some f)" by simp
      from Cons.IH [OF this] show ?thesis by auto
    next
      case False
      with Inr Cons.prems have "selectFileWithLeastDependencies_loop q fs best m = Inr (Some f)" by simp
      from Cons.IH [OF this] show ?thesis by auto
    qed
  qed
qed

lemma shift_member:
  assumes "shift q = Inr (f, q1)"
  shows "f \<in> set (unprocessedFiles q)"
    and "q1 = q\<lparr>unprocessedFiles := Set_delete f (unprocessedFiles q),
                 processingFiles := Set_add f (processingFiles q)\<rparr>"
proof -
  from assms have "selectFileWithLeastDependencies q = Inr (Some f)"
    by (auto simp: shift_def split: sum.splits option.splits)
  then have "selectFileWithLeastDependencies_loop q (unprocessedFiles q) None \<infinity> = Inr (Some f)"
    by (simp add: selectFileWithLeastDependencies_def)
  from selectLoop_member [OF this] show "f \<in> set (unprocessedFiles q)" by simp
  from assms show "q1 = q\<lparr>unprocessedFiles := Set_delete f (unprocessedFiles q),
                 processingFiles := Set_add f (processingFiles q)\<rparr>"
    by (auto simp: shift_def split: sum.splits option.splits)
qed

lemma shift_shrinks:
  assumes "shift q = Inr (f, q1)"
  shows "length (unprocessedFiles (markAsProcessed f q1)) < length (unprocessedFiles q)"
proof -
  have "f \<in> set (unprocessedFiles q)" using assms by (rule shift_member)
  then have "length (filter (\<lambda>y. y \<noteq> f) (unprocessedFiles q)) < length (unprocessedFiles q)"
    by (intro length_filter_less) auto
  moreover have "unprocessedFiles (markAsProcessed f q1) = Set_delete f (unprocessedFiles q)"
    using shift_member(2) [OF assms] by (simp add: markAsProcessed_def)
  ultimately show ?thesis by (simp add: Set_delete_def)
qed

text \<open>
  \<^verbatim>\<open>processFileFromQueue\<close> when a single agent works on the queue
  (\<open>agentCount = 1\<close>): take a file, run the repair on it, mark it as
  processed and go on while files remain. The result is the list of the files
  in the order in which \<^verbatim>\<open>shift\<close> handed them out, every repair having
  returned.
\<close>

function processFileFromQueue :: "FileQueue \<Rightarrow> error + path list" where
  "processFileFromQueue q =
     (case shift q of
        Inl e \<Rightarrow> Inl e
      | Inr (f, q1) \<Rightarrow>
          if hasUnprocessedFiles (markAsProcessed f q1)
          then (case processFileFromQueue (markAsProcessed f q1) of
                  Inl e \<Rightarrow> Inl e
                | Inr fs \<Rightarrow> Inr (f # fs))
          else Inr [f])"
  by pat_completeness auto
termination
  by (relation "measure (\<lambda>q. length (unprocessedFiles q))") (auto intro: shift_shrinks)

declare processFileFromQueue.simps [simp del]

text \<open>
  The end-to-end scenario of the specification: three files, \<open>A\<close> free of
  errors, \<open>B\<close> importing \<open>A\<close> with two errors, \<open>C\<close> importing \<open>B\<close> with
  one error.
\<close>

definition pathA :: path where "pathA = ''/p/A.ts''"
definition pathB :: path where "pathB = ''/p/B.ts''"
definition pathC :: path where "pathC = ''/p/C.ts''"

definition scenario_graph :: "path \<rightharpoonup> path list" where
  "scenario_graph = [pathA \<mapsto> [], pathB \<mapsto> [pathA], pathC \<mapsto> [pathB]]"

definition scenario_error :: "path \<Rightarrow> int \<Rightarrow> ProjectError" where
  "scenario_error f l =
     \<lparr>source = SourceTypescript, filePath = f, line = l, column = 1,
      message = ''Parameter implicitly has an any type.'', code = CodeNumber 7006\<rparr>"

definition scenario_errors :: "ProjectError list" where
  "scenario_errors = [scenario_error pathB 1, scenario_error pathB 2, scenario_error pathC 1]"

text \<open>
  A linter run that reports one warning (severity 1) for a file the type
  checker has nothing to say about: ESLint answers so for a file matched by
  its default ignore patterns, for which it yields the single message below
  instead of linting the file. The message has no position; 0 stands for its
  missing line and column.
\<close>

definition warned_file :: path where
  "warned_file = ''/p/node_modules/dep/index.ts''"

definition warned_project :: Project where
  "warned_project = \<lparr>project_path = ''/p'', phase = 2, language = Some Typescript\<rparr>"

definition ignore_warning :: LintMessage where
  "ignore_warning =
     \<lparr>message_line = 0, message_column = 0,
      message_text = ''File ignored because of a matching ignore pattern.'',
      message_ruleId = None, message_severity = 1\<rparr>"

definition warned_checkers :: Checkers where
  "warned_checkers =
     \<lparr>program =
        \<lparr>getSourceFiles =
           [\<lparr>fileName = warned_file, isDeclarationFile = False,
             getLineAndCharacterOfPosition = (\<lambda>pos. (0, pos))\<rparr>],
         getPreEmitDiagnostics = (\<lambda>scope. [])\<rparr>,
      lintFiles = (\<lambda>f. Inr [\<lparr>result_filePath = f, messages = [ignore_warning]\<rparr>])\<rparr>"



section \<open>Behaviour verification gate\<close>

text \<open>
  \<^verbatim>\<open>transpile\<close> of \<^verbatim>\<open>utils/typescript.ts\<close>: read the file, parse the
  configuration, lower the source with comments removed. The compiler is a
  parameter: \<open>configError\<close> is the error that \<^verbatim>\<open>parseConfigFile\<close> throws,
  if it throws, and \<open>transpileModule\<close> the output text of
  \<^verbatim>\<open>transpileModule(sourceCode, {compilerOptions, fileName})\<close>, a function
  of the source text and the file name.
\<close>

record Lowering =
  configError :: "error option"
  transpileModule :: "string \<Rightarrow> path \<Rightarrow> string"

definition transpile :: "Lowering \<Rightarrow> filesystem \<Rightarrow> path \<Rightarrow> error + string" where
  "transpile lw fs fileName' =
     (case readFile fs fileName' of
        Inl e \<Rightarrow> Inl e
      | Inr sourceCode \<Rightarrow>
          (case configError lw of
             Some e \<Rightarrow> Inl e
           | None \<Rightarrow> Inr (transpileModule lw sourceCode fileName')))"

text \<open>
  \<^verbatim>\<open>utils/file-modification-hook.ts\<close>. The input of a hook is its event
  with, for the two tool events, the tool name and the tool input; of the
  loosely typed tool input only the property \<^verbatim>\<open>file_path\<close> is read, when it
  is a string.
\<close>

datatype ToolInput = FilePathInput string | OtherToolInput

datatype HookInput =
    PreToolUseInput string ToolInput
  | PostToolUseInput string ToolInput
  | OtherHookInput

text \<open>
  The output is \<^verbatim>\<open>{}\<close> or
  \<^verbatim>\<open>{hookSpecificOutput: {hookEventName: "PostToolUse", additionalContext}}\<close>.
\<close>

datatype HookJSONOutput = EmptyOutput | PostToolUseContext string

text \<open>
  The state: the module-level map \<^verbatim>\<open>original\<close> (one per process, shared by
  every \<^verbatim>\<open>FileModificationHookState\<close>), the counter of the instance, and
  the lines written with \<^verbatim>\<open>console.error\<close>.
\<close>

record HookState =
  original :: "path \<rightharpoonup> string"
  behaviorModificationsDetected :: nat
  console_error :: "string list"

text \<open>
  What the hook reads besides its state and the file system: the project, the
  lowering, and the library functions \<^verbatim>\<open>resolve\<close> (of \<^verbatim>\<open>path\<close>) and
  \<^verbatim>\<open>createPatch\<close> (of \<^verbatim>\<open>diff\<close>).
\<close>

record HookEnv =
  hook_project :: Project
  lowering :: Lowering
  path_resolve :: "string \<Rightarrow> string \<Rightarrow> string"
  createPatch :: "string \<Rightarrow> string \<Rightarrow> string \<Rightarrow> string \<Rightarrow> string \<Rightarrow> string"

definition isAbsolute :: "string \<Rightarrow> bool" where
  "isAbsolute p = (case p of [] \<Rightarrow> False | c # cs \<Rightarrow> c = CHR ''/'')"

definition isFileModificationTool :: "string \<Rightarrow> bool" where
  "isFileModificationTool toolName = (toolName \<in> set [''Edit'', ''MultiEdit''])"

definition extractFilePath :: "HookEnv \<Rightarrow> ToolInput \<Rightarrow> error + path" where
  "extractFilePath env toolInput =
     (case toolInput of
        FilePathInput filePathValue \<Rightarrow>
          Inr (if isAbsolute filePathValue then filePathValue
               else path_resolve env (project_path (hook_project env)) filePathValue)
      | OtherToolInput \<Rightarrow> Inl (Error ''Invalid tool input: missing file_path''))"

definition handlePreToolUseEvent ::
  "HookEnv \<Rightarrow> filesystem \<Rightarrow> string \<Rightarrow> ToolInput \<Rightarrow> HookState \<Rightarrow> (error + HookJSONOutput) \<times> HookState" where
  "handlePreToolUseEvent env fs toolName toolInput st =
     (if \<not> isFileModificationTool toolName then (Inr EmptyOutput, st)
      else
        (case extractFilePath env toolInput of
           Inl e \<Rightarrow> (Inl e, st)
         | Inr fp \<Rightarrow>
             (case original st fp of
                Some snapshot \<Rightarrow> (Inr EmptyOutput, st)
              | None \<Rightarrow>
                  (case transpile (lowering env) fs fp of
                     Inl e \<Rightarrow> (Inl e, st)
                   | Inr transpiled \<Rightarrow>
                       (Inr EmptyOutput, st\<lparr>original := (original st)(fp \<mapsto> transpiled)\<rparr>)))))"

definition detectRuntimeChange ::
  "HookEnv \<Rightarrow> filesystem \<Rightarrow> path \<Rightarrow> HookState \<Rightarrow> error + string option" where
  "detectRuntimeChange env fs fp st =
     (case original st fp of
        None \<Rightarrow> Inl (Error (''Missing original code for '' @ fp))
      | Some originalCode \<Rightarrow>
          (case transpile (lowering env) fs fp of
             Inl e \<Rightarrow> Inl e
           | Inr currentCode \<Rightarrow>
               if originalCode = currentCode then Inr None
               else Inr (Some (createPatch env fp originalCode currentCode ''original'' ''modified''))))"

definition additionalContext :: "path \<Rightarrow> string \<Rightarrow> string" where
  "additionalContext fp diff =
     ''CRITICAL: You modified the runtime behavior in '' @ [CHR 0x27] @ fp @ [CHR 0x27]
       @ ''.'' @ [newline, newline]
     @ ''You MUST NOT change any code logic.'' @ [newline, newline]
     @ ''Here is the diff showing the runtime changes you made:'' @ [newline, newline]
     @ ''<diff>'' @ [newline] @ diff @ ''</diff>'' @ [newline, newline]
     @ ''Revert ALL runtime changes immediately.''"

definition handlePostToolUseEvent ::
  "HookEnv \<Rightarrow> filesystem \<Rightarrow> string \<Rightarrow> ToolInput \<Rightarrow> HookState \<Rightarrow> (error + HookJSONOutput) \<times> HookState" where
  "handlePostToolUseEvent env fs toolName toolInput st =
     (if \<not> isFileModificationTool toolName then (Inr EmptyOutput, st)
      else
        (case extractFilePath env toolInput of
           Inl e \<Rightarrow> (Inl e, st)
         | Inr fp \<Rightarrow>
             (case detectRuntimeChange env fs fp st of
                Inl e \<Rightarrow> (Inl e, st)
              | Inr None \<Rightarrow> (Inr EmptyOutput, st)
              | Inr (Some diff) \<Rightarrow>
                  (Inr (PostToolUseContext (additionalContext fp diff)),
                   st\<lparr>behaviorModificationsDetected := behaviorModificationsDetected st + 1\<rparr>))))"

text \<open>
  \<^verbatim>\<open>`${error}`\<close> of an \<^verbatim>\<open>Error\<close>: its name, a colon and its message. The
  two subclasses of \<^verbatim>\<open>claude-code.ts\<close> do not set a name of their own.
\<close>

definition error_message :: "error \<Rightarrow> string" where
  "error_message e =
     (case e of Error m \<Rightarrow> m | ClaudeSessionLimitError m \<Rightarrow> m
      | ClaudePromptLimitError m \<Rightarrow> m | SystemError m \<Rightarrow> m)"

definition error_toString :: "error \<Rightarrow> string" where
  "error_toString e = ''Error: '' @ error_message e"

text \<open>
  The callback built by \<^verbatim>\<open>createHook\<close>: the handler of the event inside
  \<^verbatim>\<open>try\<close>, and the \<^verbatim>\<open>catch\<close> that logs whatever was thrown and answers
  \<^verbatim>\<open>{}\<close>.
\<close>

definition hook :: "HookEnv \<Rightarrow> filesystem \<Rightarrow> HookInput \<Rightarrow> HookState \<Rightarrow> HookJSONOutput \<times> HookState" where
  "hook env fs input st =
     (case (case input of
              PreToolUseInput toolName toolInput \<Rightarrow> handlePreToolUseEvent env fs toolName toolInput st
            | PostToolUseInput toolName toolInput \<Rightarrow> handlePostToolUseEvent env fs toolName toolInput st
            | OtherHookInput \<Rightarrow> (Inr EmptyOutput, st)) of
        (Inr output, st1) \<Rightarrow> (output, st1)
      | (Inl e, st1) \<Rightarrow>
          (EmptyOutput,
           st1\<lparr>console_error := console_error st1
                  @ [red (''Error in file modification hook: '' @ error_toString e)]\<rparr>))"

text \<open>
  A run of the oracle as the gate sees it: a sequence of hook calls, each with
  the content of the file system at the time of the call. The result is the
  list of the outputs and the last state.
\<close>

fun hooks_run :: "HookEnv \<Rightarrow> (filesystem \<times> HookInput) list \<Rightarrow> HookState \<Rightarrow> HookJSONOutput list \<times> HookState" where
  "hooks_run env [] st = ([], st)"
| "hooks_run env ((fs, input) # rest) st =
     (case hook env fs input st of
        (output, st1) \<Rightarrow>
          (case hooks_run env rest st1 of (outputs, st2) \<Rightarrow> (output # outputs, st2)))"

text \<open>
  A concrete gate for the examples: the lowering drops the blanks of the
  source, \<^verbatim>\<open>resolve\<close> joins with a slash, and the patch lists the old and
  the new text.
\<close>

definition example_env :: HookEnv where
  "example_env =
     \<lparr>hook_project = \<lparr>project_path = ''/p'', phase = 1, language = Some Javascript\<rparr>,
      lowering = \<lparr>configError = None,
                  transpileModule = (\<lambda>sourceCode name. filter (\<lambda>c. c \<noteq> CHR '' '') sourceCode)\<rparr>,
      path_resolve = (\<lambda>base p. base @ ''/'' @ p),
      createPatch = (\<lambda>name old new oldHeader newHeader.
                       ''-'' @ old @ [newline] @ ''+'' @ new @ [newline])\<rparr>"

definition example_state :: HookState where
  "example_state = \<lparr>original = Map.empty, behaviorModificationsDetected = 0, console_error = []\<rparr>"

definition example_edit :: ToolInput where
  "example_edit = FilePathInput ''a.js''"

section \<open>Error report\<close>

text \<open>\<^verbatim>\<open>utils/error-formatting.ts\<close>\<close>

definition MAX_ERRORS_PER_BATCH :: nat where
  "MAX_ERRORS_PER_BATCH = 100"

record ErrorsWithContext =
  errors :: "ProjectError list"
  codeContext :: string

definition determineContextSize :: "nat \<Rightarrow> int" where
  "determineContextSize errorCount =
     (if errorCount \<ge> 50 then 1 else if errorCount \<ge> 10 then 2 else 3)"

definition formatLine :: "int \<Rightarrow> string \<Rightarrow> bool \<Rightarrow> string" where
  "formatLine lineNumber content isErrorLine =
     (if isErrorLine then ''>'' else '' '') @ '' '' @ padStart 4 (CHR '' '') (toString lineNumber)
       @ '' | '' @ content"

text \<open>
  \<^verbatim>\<open>lines[index]\<close> is a string exactly for the indices of the array; the
  loop skips the others, negative ones included.
\<close>

definition formatCodeContext :: "filesystem \<Rightarrow> path \<Rightarrow> int \<Rightarrow> int \<Rightarrow> error + string" where
  "formatCodeContext fs fp errorLine contextSize =
     (case readFile fs fp of
        Inl e \<Rightarrow> Inl e
      | Inr content \<Rightarrow>
          (let ls = split newline content;
               startLine = errorLine - contextSize;
               endLine = errorLine + contextSize
           in Inr (join [newline]
                     (concat (map (\<lambda>index.
                        if 0 \<le> index \<and> index < int (length ls)
                        then [formatLine (index + 1) (ls ! nat index) (index = errorLine)]
                        else [])
                      [startLine..endLine])))))"

text \<open>
  The \<^verbatim>\<open>Map<string, ErrorsWithContext>\<close> of \<^verbatim>\<open>groupErrorsByLocation\<close>, in
  insertion order: a new key goes to the end, \<^verbatim>\<open>existing.errors.push\<close>
  changes the entry in place.
\<close>

definition Map_push :: "string \<Rightarrow> ProjectError \<Rightarrow> (string \<times> ErrorsWithContext) list \<Rightarrow> (string \<times> ErrorsWithContext) list" where
  "Map_push key e m =
     map (\<lambda>(k, g). if k = key then (k, g\<lparr>errors := errors g @ [e]\<rparr>) else (k, g)) m"

fun groupErrorsByLocation_loop ::
  "filesystem \<Rightarrow> int \<Rightarrow> ProjectError list \<Rightarrow> (string \<times> ErrorsWithContext) list
     \<Rightarrow> error + (string \<times> ErrorsWithContext) list" where
  "groupErrorsByLocation_loop fs contextSize [] errorsByLocation = Inr errorsByLocation"
| "groupErrorsByLocation_loop fs contextSize (e # rest) errorsByLocation =
     (let l = line e - 1;
          key = filePath e @ '':'' @ toString l
      in case map_of errorsByLocation key of
           Some existing \<Rightarrow>
             groupErrorsByLocation_loop fs contextSize rest (Map_push key e errorsByLocation)
         | None \<Rightarrow>
             (case formatCodeContext fs (filePath e) l contextSize of
                Inl err \<Rightarrow> Inl err
              | Inr context \<Rightarrow>
                  groupErrorsByLocation_loop fs contextSize rest
                    (errorsByLocation @ [(key, \<lparr>errors = [e], codeContext = context\<rparr>)])))"

definition groupErrorsByLocation ::
  "filesystem \<Rightarrow> ProjectError list \<Rightarrow> int \<Rightarrow> error + (string \<times> ErrorsWithContext) list" where
  "groupErrorsByLocation fs errs contextSize =
     groupErrorsByLocation_loop fs contextSize (take MAX_ERRORS_PER_BATCH errs) []"

definition formatError :: "Project \<Rightarrow> ProjectError \<Rightarrow> string" where
  "formatError project e =
     (let relativePath = replace (filePath e) (project_path project @ ''/'') '''';
          codePrefix = (if source e = SourceTypescript then ''TS'' else '''');
          codeInfo = (case code e of
                        CodeNull \<Rightarrow> ''''
                      | CodeNumber n \<Rightarrow> '' ('' @ codePrefix @ toString n @ '')''
                      | CodeString c \<Rightarrow> '' ('' @ codePrefix @ c @ '')'')
      in relativePath @ '':'' @ toString (line e) @ '':'' @ toString (column e)
           @ '' - '' @ message e @ codeInfo)"

definition formatErrors :: "ProjectError list \<Rightarrow> Project \<Rightarrow> string" where
  "formatErrors errs project = join [newline] (map (formatError project) errs)"

definition formatErrorGroups :: "(string \<times> ErrorsWithContext) list \<Rightarrow> Project \<Rightarrow> string" where
  "formatErrorGroups errorsByLocation project =
     join [newline, newline]
       (map (\<lambda>(k, g). formatErrors (errors g) project @ [newline] @ codeContext g)
            errorsByLocation)"

definition batch_header :: "nat \<Rightarrow> string" where
  "batch_header errorCount =
     ''There are '' @ toString (int errorCount) @ '' errors in total, here are the first ''
       @ toString (int MAX_ERRORS_PER_BATCH) @ '':'' @ [newline, newline]"

definition formatErrorsWithContext :: "ProjectError list \<Rightarrow> Project \<Rightarrow> filesystem \<Rightarrow> error + string" where
  "formatErrorsWithContext errs project fs =
     (let errorCount = length errs;
          contextSize = determineContextSize errorCount
      in case groupErrorsByLocation fs errs contextSize of
           Inl e \<Rightarrow> Inl e
         | Inr errorsByLocation \<Rightarrow>
             (let formattedErrors = formatErrorGroups errorsByLocation project
              in Inr (if errorCount > MAX_ERRORS_PER_BATCH
                      then batch_header errorCount @ formattedErrors
                      else formattedErrors)))"

text \<open>The diagnostics that a grouping holds, group after group.\<close>

definition grouped_errors :: "(string \<times> ErrorsWithContext) list \<Rightarrow> ProjectError list" where
  "grouped_errors errorsByLocation = concat (map (\<lambda>(k, g). errors g) errorsByLocation)"

text \<open>The files of the scenario and its project.\<close>

definition scenario_project :: Project where
  "scenario_project = \<lparr>project_path = ''/p'', phase = 1, language = Some Javascript\<rparr>"

definition scenario_files :: filesystem where
  "scenario_files =
     [pathA \<mapsto> ''export const a = 1;'',
      pathB \<mapsto> ''export function b(x) {'' @ [newline] @ ''  return a + x;'' @ [newline] @ ''}'',
      pathC \<mapsto> ''export const c = (y) => b(y);'']"

section \<open>Oracle\<close>

text \<open>
  \<^verbatim>\<open>utils/claude-code.ts\<close>. Of the result the cost and the duration,
  floating-point numbers, are left out. An assistant message is read through
  the first block of its content, \<^verbatim>\<open>const [content] = message.content\<close>.
\<close>

record ClaudeResult =
  result_text :: string
  result_sessionId :: string
  result_turns :: nat

datatype MessageContent = TextContent string | ThinkingContent string | ToolUseContent string

definition assistantMessageStartsWith :: "string \<Rightarrow> MessageContent \<Rightarrow> bool" where
  "assistantMessageStartsWith prefix content =
     (case content of TextContent t \<Rightarrow> startsWith t prefix | _ \<Rightarrow> False)"

definition isErrorAndMayContinue :: "MessageContent \<Rightarrow> error + bool" where
  "isErrorAndMayContinue m =
     (if assistantMessageStartsWith ''API Error: 400'' m then Inr True
      else if assistantMessageStartsWith ''Session limit reached'' m
        then Inl (ClaudeSessionLimitError ''Claude session limit reached'')
      else if assistantMessageStartsWith ''Weekly limit reached'' m
        then Inl (ClaudeSessionLimitError ''Claude weekly limit reached'')
      else if assistantMessageStartsWith ''Usage limit reached'' m
        then Inl (ClaudeSessionLimitError ''Claude usage limit reached'')
      else if assistantMessageStartsWith ''Prompt is too long'' m
        then Inl (ClaudePromptLimitError ''Prompt is too long'')
      else Inr False)"

text \<open>
  The messages of one \<^verbatim>\<open>query\<close> as \<^verbatim>\<open>claudeCode\<close> reads them (without
  the logging of the verbose mode): the loop ends with the first successful
  result, which it returns with the flag \<open>shouldContinueAfterError\<close>; a stream
  that ends without one makes \<^verbatim>\<open>claudeCode\<close> throw. With the flag set,
  \<^verbatim>\<open>claudeCode\<close> goes on with \<^verbatim>\<open>continueAfterError\<close>, a further call of
  itself that resumes the session.
\<close>

datatype SDKMessage =
    AssistantMessage MessageContent
  | ResultSuccess ClaudeResult
  | OtherMessage

fun claudeCode_loop :: "bool \<Rightarrow> SDKMessage list \<Rightarrow> error + (ClaudeResult \<times> bool)" where
  "claudeCode_loop shouldContinueAfterError [] = Inl (Error ''Claude API query failed'')"
| "claudeCode_loop shouldContinueAfterError (AssistantMessage m # rest) =
     (case isErrorAndMayContinue m of
        Inl e \<Rightarrow> Inl e
      | Inr b \<Rightarrow> claudeCode_loop (if b then True else shouldContinueAfterError) rest)"
| "claudeCode_loop shouldContinueAfterError (ResultSuccess r # rest) =
     Inr (r, shouldContinueAfterError)"
| "claudeCode_loop shouldContinueAfterError (OtherMessage # rest) =
     claudeCode_loop shouldContinueAfterError rest"

section \<open>Repair iteration controller\<close>

text \<open>
  \<^verbatim>\<open>class FixErrorsAgent\<close> (\<^verbatim>\<open>agents/errors/fix-errors.ts\<close>). The record
  holds the fields of the agent (of \<^verbatim>\<open>stats\<close> those that are integers),
  the counter of its hook state, and the part of the world it acts on: the
  file system, the number of calls of \<^verbatim>\<open>claudeCode\<close> made so far, and the
  lines written with \<^verbatim>\<open>console.log\<close>.
\<close>

record FixErrorsAgent =
  agent_filePath :: "path option"
  sessionId :: "string option"
  stats_behaviorModificationsDetected :: nat
  stats_initialErrorCount :: nat
  stats_iterations :: nat
  stats_remainingErrorCount :: nat
  stats_turns :: nat
  hookState_behaviorModificationsDetected :: nat
  fileSystem :: filesystem
  oracleCalls :: nat
  console_log :: "string list"

text \<open>
  What the agent calls: the project; \<^verbatim>\<open>claudeCode(prompt, options, verbose)\<close>,
  whose answer may depend on the number of earlier calls, the prompt, the
  session to resume, the verbose flag and the file system, and which yields
  its result or the error it throws, the file system it leaves, and the number
  of violations its hooks counted meanwhile; the checkers, as a function of
  the file system; and the prompt templates by file name.
\<close>

record AgentEnv =
  agent_project :: Project
  claudeCode ::
    "nat \<Rightarrow> string \<Rightarrow> string option \<Rightarrow> bool \<Rightarrow> filesystem \<Rightarrow> (error + ClaudeResult) \<times> filesystem \<times> nat"
  checkers_of :: "filesystem \<Rightarrow> Checkers"
  promptTemplates :: "string \<rightharpoonup> string"

definition scope :: "FixErrorsAgent \<Rightarrow> string" where
  "scope a = (case agent_filePath a of Some fp \<Rightarrow> fp | None \<Rightarrow> ''the project'')"

definition checkErrors :: "AgentEnv \<Rightarrow> FixErrorsAgent \<Rightarrow> (error + ProjectError list) \<times> FixErrorsAgent" where
  "checkErrors env a =
     (case getErrors (agent_project env) (checkers_of env (fileSystem a)) (agent_filePath a) of
        Inl e \<Rightarrow> (Inl e, a)
      | Inr errs \<Rightarrow>
          (Inr errs,
           if length errs = 0
           then a\<lparr>console_log := console_log a
                    @ [''All errors in '' @ scope a @ '' have been fixed.'']\<rparr>
           else a))"

definition loadPromptTemplate :: "AgentEnv \<Rightarrow> nat \<Rightarrow> error + string" where
  "loadPromptTemplate env n =
     (case Project_language (agent_project env) of
        Inl e \<Rightarrow> Inl e
      | Inr l \<Rightarrow>
          readFile (promptTemplates env)
            (''phase'' @ toString (int n) @ ''-'' @ Language_name l @ ''.md''))"

definition remainingErrorsPrompt :: "FixErrorsAgent \<Rightarrow> string \<Rightarrow> string" where
  "remainingErrorsPrompt a formattedErrors =
     ''Not all errors are fixed in '' @ scope a @ ''. Here are the remaining errors:''
       @ [newline, newline] @ formattedErrors"

definition buildPhase1Prompt :: "AgentEnv \<Rightarrow> FixErrorsAgent \<Rightarrow> string \<Rightarrow> error + string" where
  "buildPhase1Prompt env a formattedErrors =
     (case sessionId a of
        None \<Rightarrow>
          (case loadPromptTemplate env 1 of
             Inl e \<Rightarrow> Inl e
           | Inr promptTemplate \<Rightarrow>
               Inr (''You are establishing a zero errors baseline for '' @ scope a @ ''.''
                    @ [newline] @ promptTemplate @ [newline] @ formattedErrors))
      | Some s \<Rightarrow> Inr (remainingErrorsPrompt a formattedErrors))"

definition buildPhase2Prompt :: "AgentEnv \<Rightarrow> FixErrorsAgent \<Rightarrow> string \<Rightarrow> error + string" where
  "buildPhase2Prompt env a formattedErrors =
     (case agent_filePath a of
        Some fp \<Rightarrow>
          (case sessionId a of
             None \<Rightarrow>
               (case loadPromptTemplate env 2 of
                  Inl e \<Rightarrow> Inl e
                | Inr promptTemplate \<Rightarrow>
                    Inr (''You are improving TypeScript '' @ [CHR 0x27] @ ''any'' @ [CHR 0x27]
                         @ '' coverage for '' @ scope a @ ''.''
                         @ [newline] @ promptTemplate @ [newline] @ formattedErrors))
           | Some s \<Rightarrow>
               if stats_iterations a mod MAX_ITERATIONS_PER_100_ERRORS = 2
               then Inr (''Not all errors are fixed in '' @ scope a
                         @ ''. Fix remaining errors by refining the type definitions you just created or addressing newly discovered issues. Here are the remaining errors:''
                         @ [newline, newline] @ formattedErrors)
               else Inr (remainingErrorsPrompt a formattedErrors))
      | None \<Rightarrow>
          (case sessionId a of
             None \<Rightarrow>
               (case loadPromptTemplate env 1 of
                  Inl e \<Rightarrow> Inl e
                | Inr promptTemplate \<Rightarrow>
                    Inr (''You are resolving type errors which were caused by adding type annotations to the project. Review and fix the existing type annotations.''
                         @ [newline] @ promptTemplate @ [newline] @ formattedErrors))
           | Some s \<Rightarrow> Inr (remainingErrorsPrompt a formattedErrors)))"

definition buildPrompt :: "AgentEnv \<Rightarrow> FixErrorsAgent \<Rightarrow> string \<Rightarrow> error + string" where
  "buildPrompt env a formattedErrors =
     (if phase (agent_project env) = 1 then buildPhase1Prompt env a formattedErrors
      else buildPhase2Prompt env a formattedErrors)"

text \<open>
  \<^verbatim>\<open>runClaudeCode\<close>: one call of \<^verbatim>\<open>claudeCode\<close>. What the call did to the
  file system and to the hook state stays when it throws; the fields of the
  agent are assigned only when it returns.
\<close>

definition runClaudeCode :: "AgentEnv \<Rightarrow> FixErrorsAgent \<Rightarrow> string \<Rightarrow> (error + unit) \<times> FixErrorsAgent" where
  "runClaudeCode env a prompt =
     (case claudeCode env (oracleCalls a) prompt (sessionId a) (phase (agent_project env) = 2)
             (fileSystem a) of
        (outcome, fs1, detected) \<Rightarrow>
          (let a1 = a\<lparr>fileSystem := fs1,
                      oracleCalls := oracleCalls a + 1,
                      hookState_behaviorModificationsDetected :=
                        hookState_behaviorModificationsDetected a + detected\<rparr>
           in case outcome of
                Inl e \<Rightarrow> (Inl e, a1)
              | Inr r \<Rightarrow>
                  (Inr (),
                   a1\<lparr>sessionId := Some (result_sessionId r),
                      stats_turns := stats_turns a1 + result_turns r,
                      stats_behaviorModificationsDetected :=
                        hookState_behaviorModificationsDetected a1\<rparr>)))"

definition ts_nocheck :: string where
  "ts_nocheck = ''// @ts-nocheck'' @ [newline]"

definition handleClaudeError :: "FixErrorsAgent \<Rightarrow> error \<Rightarrow> (error + unit) \<times> FixErrorsAgent" where
  "handleClaudeError a e =
     (case (e, agent_filePath a) of
        (ClaudePromptLimitError m, Some fp) \<Rightarrow>
          (case readFile (fileSystem a) fp of
             Inl e1 \<Rightarrow> (Inl e1, a)
           | Inr fileContent \<Rightarrow>
               (Inr (), a\<lparr>fileSystem := writeFile (fileSystem a) fp (ts_nocheck @ fileContent)\<rparr>))
      | _ \<Rightarrow> (Inl e, a))"

definition fixErrors :: "AgentEnv \<Rightarrow> FixErrorsAgent \<Rightarrow> ProjectError list \<Rightarrow> (error + unit) \<times> FixErrorsAgent" where
  "fixErrors env a errs =
     (case formatErrorsWithContext errs (agent_project env) (fileSystem a) of
        Inl e \<Rightarrow> (Inl e, a)
      | Inr formattedErrors \<Rightarrow>
          (case buildPrompt env a formattedErrors of
             Inl e \<Rightarrow> (Inl e, a)
           | Inr prompt \<Rightarrow>
               (case runClaudeCode env a prompt of
                  (Inr u, a1) \<Rightarrow> (Inr (), a1)
                | (Inl e, a1) \<Rightarrow> handleClaudeError a1 e)))"

text \<open>
  The \<^verbatim>\<open>for\<close> loop of \<^verbatim>\<open>runFixingIterations\<close>, from the iteration
  \<open>iteration\<close> on, and the message after it.
\<close>

function runFixingIterations_loop ::
  "AgentEnv \<Rightarrow> nat \<Rightarrow> nat \<Rightarrow> ProjectError list \<Rightarrow> FixErrorsAgent \<Rightarrow> (error + unit) \<times> FixErrorsAgent" where
  "runFixingIterations_loop env maxIterations iteration errs a =
     (if iteration \<le> maxIterations then
        (case fixErrors env (a\<lparr>stats_iterations := iteration\<rparr>) errs of
           (Inl e, a1) \<Rightarrow> (Inl e, a1)
         | (Inr u, a1) \<Rightarrow>
             (case checkErrors env a1 of
                (Inl e, a2) \<Rightarrow> (Inl e, a2)
              | (Inr errs1, a2) \<Rightarrow>
                  if length errs1 = 0
                  then (Inr (), a2\<lparr>stats_remainingErrorCount := length errs1\<rparr>)
                  else runFixingIterations_loop env maxIterations (iteration + 1) errs1
                         (if iteration mod MAX_ITERATIONS_PER_100_ERRORS = 0
                          then a2\<lparr>stats_remainingErrorCount := length errs1, sessionId := None\<rparr>
                          else a2\<lparr>stats_remainingErrorCount := length errs1\<rparr>)))
      else
        (Inr (),
         a\<lparr>console_log := console_log a
              @ [red (''Failed to fix all errors in '' @ scope a @ '' after ''
                      @ toString (int maxIterations) @ '' iterations. ''
                      @ toString (int (length errs)) @ '' error(s) remaining.'')]\<rparr>))"
  by pat_completeness auto
termination
  by (relation "measure (\<lambda>(env, maxIterations, iteration, errs, a). Suc maxIterations - iteration)")
     auto

declare runFixingIterations_loop.simps [simp del]

definition runFixingIterations :: "AgentEnv \<Rightarrow> FixErrorsAgent \<Rightarrow> ProjectError list \<Rightarrow> (error + unit) \<times> FixErrorsAgent" where
  "runFixingIterations env a initialErrors =
     runFixingIterations_loop env (calculateMaxIterations (length initialErrors)) 1 initialErrors
       (a\<lparr>stats_initialErrorCount := length initialErrors\<rparr>)"













section \<open>Properties of the file schedule\<close>

lemmas queue_defs =
  new_FileQueue_def new_Set_def Set_add_def Set_delete_def Set_has_def Set_union_def
  shift_def selectFileWithLeastDependencies_def countUnprocessedDependencies_def
  DependencyGraph_get_def markAsProcessed_def hasUnprocessedFiles_def

lemma Set_union_set: "set (Set_union xs ys) = set xs \<union> set ys"
proof -
  have "set (foldl (\<lambda>s y. Set_add y s) s ys) = set s \<union> set ys" for s
    by (induction ys arbitrary: s) (auto simp: Set_add_def)
  then show ?thesis by (simp add: Set_union_def)
qed

lemma count_indexed:
  assumes "dependencies q f = Some ds"
  shows "countUnprocessedDependencies q f =
           Inr (length (filter (\<lambda>d. d \<in> set (unprocessedFiles q) \<union> set (processingFiles q)) ds))"
  using assms
  by (simp add: countUnprocessedDependencies_def DependencyGraph_get_def Set_has_def Set_union_set)

lemma count_indexed_unresolved:
  assumes "f \<in> dom (dependencies q)"
  shows "countUnprocessedDependencies q f = Inr (unresolved q f)"
  using assms by (auto simp: unresolved_def count_indexed)

lemma ex_least_count:
  fixes c :: "'a \<Rightarrow> nat"
  assumes "fs \<noteq> []"
  shows "\<exists>h \<in> set fs. \<forall>g \<in> set fs. c h \<le> c g"
proof -
  have "arg_min_list c fs \<in> set fs" using assms by (rule arg_min_list_in)
  moreover have "\<forall>g \<in> set fs. c (arg_min_list c fs) \<le> c g"
    using assms by (simp add: f_arg_min_list_f)
  ultimately show ?thesis by blast
qed

lemma firstLeast_Cons_skip:
  assumes "\<not> enat (c a) < m"
  shows "firstLeast c m (a # fs) = firstLeast c m fs"
proof -
  have "m \<le> enat (c a)" using assms by simp
  then have "\<And>f. enat (c f) < m \<Longrightarrow> c f \<le> c a"
    by (metis enat_ord_simps(1) less_le_trans order_less_imp_le)
  then have "filter (\<lambda>f. enat (c f) < m \<and> (\<forall>g \<in> set (a # fs). c f \<le> c g)) fs
     = filter (\<lambda>f. enat (c f) < m \<and> (\<forall>g \<in> set fs. c f \<le> c g)) fs"
    by (intro filter_cong) auto
  with assms show ?thesis by (simp add: firstLeast_def)
qed

lemma firstLeast_Cons_least:
  assumes "enat (c a) < m" "\<forall>g \<in> set fs. c a \<le> c g"
  shows "firstLeast c m (a # fs) = a # tl (firstLeast c m (a # fs))"
    and "firstLeast c (enat (c a)) fs = []"
  using assms by (auto simp: firstLeast_def filter_empty_conv)

lemma firstLeast_Cons_better:
  assumes "enat (c a) < m" "g \<in> set fs" "c g < c a"
  shows "firstLeast c m (a # fs) = firstLeast c (enat (c a)) fs"
    and "firstLeast c (enat (c a)) fs \<noteq> []"
proof -
  have "\<not> c a \<le> c g" using assms(3) by simp
  then have na: "\<not> (\<forall>g \<in> set (a # fs). c a \<le> c g)" using assms(2) by auto
  have "\<And>f. f \<in> set fs \<Longrightarrow>
      (enat (c f) < m \<and> (\<forall>g \<in> set (a # fs). c f \<le> c g))
    = (enat (c f) < enat (c a) \<and> (\<forall>g \<in> set fs. c f \<le> c g))"
  proof -
    fix f assume "f \<in> set fs"
    show "(enat (c f) < m \<and> (\<forall>g \<in> set (a # fs). c f \<le> c g))
    = (enat (c f) < enat (c a) \<and> (\<forall>g \<in> set fs. c f \<le> c g))"
    proof
      assume l: "enat (c f) < m \<and> (\<forall>g \<in> set (a # fs). c f \<le> c g)"
      then have "c f \<le> c g" using assms(2) by simp
      then have "c f < c a" using assms(3) by simp
      with l show "enat (c f) < enat (c a) \<and> (\<forall>g \<in> set fs. c f \<le> c g)" by simp
    next
      assume r: "enat (c f) < enat (c a) \<and> (\<forall>g \<in> set fs. c f \<le> c g)"
      then have "enat (c f) < m" using assms(1) by (meson order.strict_trans)
      moreover have "c f \<le> c a" using r by simp
      ultimately show "enat (c f) < m \<and> (\<forall>g \<in> set (a # fs). c f \<le> c g)" using r by simp
    qed
  qed
  then have "filter (\<lambda>f. enat (c f) < m \<and> (\<forall>g \<in> set (a # fs). c f \<le> c g)) fs
     = filter (\<lambda>f. enat (c f) < enat (c a) \<and> (\<forall>g \<in> set fs. c f \<le> c g)) fs"
    by (intro filter_cong) auto
  with na show "firstLeast c m (a # fs) = firstLeast c (enat (c a)) fs"
    by (simp add: firstLeast_def)
  have "fs \<noteq> []" using assms(2) by auto
  then obtain h where h: "h \<in> set fs" "\<forall>g \<in> set fs. c h \<le> c g"
    using ex_least_count by blast
  then have "c h \<le> c g" using assms(2) by simp
  then have "c h < c a" using assms(3) by simp
  with h show "firstLeast c (enat (c a)) fs \<noteq> []"
    by (auto simp: firstLeast_def filter_empty_conv)
qed

lemma selectLoop_indexed:
  assumes "\<forall>f \<in> set fs. f \<in> dom (dependencies q)"
  shows "selectFileWithLeastDependencies_loop q fs best m =
           Inr (case firstLeast (unresolved q) m fs of [] \<Rightarrow> best | f # _ \<Rightarrow> Some f)"
  using assms
proof (induction fs arbitrary: best m)
  case Nil
  then show ?case by (simp add: firstLeast_def)
next
  case (Cons a fs)
  have a: "countUnprocessedDependencies q a = Inr (unresolved q a)"
    using Cons.prems by (simp add: count_indexed_unresolved)
  have ih: "\<And>best m. selectFileWithLeastDependencies_loop q fs best m =
           Inr (case firstLeast (unresolved q) m fs of [] \<Rightarrow> best | f # _ \<Rightarrow> Some f)"
    using Cons by simp
  show ?case
  proof (cases "enat (unresolved q a) < m")
    case False
    then show ?thesis by (simp add: a ih firstLeast_Cons_skip)
  next
    case True
    show ?thesis
    proof (cases "\<forall>g \<in> set fs. unresolved q a \<le> unresolved q g")
      case least: True
      have "firstLeast (unresolved q) m (a # fs) = a # tl (firstLeast (unresolved q) m (a # fs))"
        using True least by (rule firstLeast_Cons_least)
      then have "(case firstLeast (unresolved q) m (a # fs) of [] \<Rightarrow> best | f # _ \<Rightarrow> Some f) = Some a"
        by (metis list.simps(5))
      moreover have "firstLeast (unresolved q) (enat (unresolved q a)) fs = []"
        using True least by (rule firstLeast_Cons_least)
      ultimately show ?thesis using True by (simp add: a ih)
    next
      case False
      then obtain g where g: "g \<in> set fs" "unresolved q g < unresolved q a"
        by (auto simp: not_le)
      have e: "firstLeast (unresolved q) m (a # fs) = firstLeast (unresolved q) (enat (unresolved q a)) fs"
        using True g by (rule firstLeast_Cons_better)
      have ne: "firstLeast (unresolved q) (enat (unresolved q a)) fs \<noteq> []"
        using True g by (rule firstLeast_Cons_better)
      show ?thesis using True ne by (simp add: a ih e split: list.splits)
    qed
  qed
qed

lemma firstLeast_nonempty:
  assumes "fs \<noteq> []"
  shows "firstLeast c \<infinity> fs \<noteq> []"
proof -
  obtain h where "h \<in> set fs" "\<forall>g \<in> set fs. c h \<le> c g"
    using assms ex_least_count by blast
  then show ?thesis by (auto simp: firstLeast_def filter_empty_conv)
qed

lemma firstLeast_head:
  assumes "firstLeast c m fs = f # rest"
  shows "\<exists>pre post. fs = pre @ f # post
           \<and> (\<forall>g \<in> set fs. c f \<le> c g)
           \<and> (\<forall>g \<in> set pre. c f < c g)"
proof -
  let ?P = "\<lambda>f. enat (c f) < m \<and> (\<forall>g \<in> set fs. c f \<le> c g)"
  from assms have "filter ?P fs = f # rest" by (simp add: firstLeast_def)
  then obtain pre post where fs: "fs = pre @ f # post" and pre: "\<forall>g \<in> set pre. \<not> ?P g"
    and f: "?P f"
    unfolding filter_eq_Cons_iff by blast
  have "c f < c g" if "g \<in> set pre" for g
  proof (rule ccontr)
    assume "\<not> c f < c g"
    then have le: "c g \<le> c f" by simp
    then have "enat (c g) \<le> enat (c f)" by simp
    with f have 1: "enat (c g) < m" by (meson order.strict_trans1)
    have 2: "\<forall>h \<in> set fs. c g \<le> c h"
    proof
      fix h assume "h \<in> set fs"
      with f have "c f \<le> c h" by blast
      with le show "c g \<le> c h" by (rule order.trans)
    qed
    from 1 2 pre that show False by blast
  qed
  with fs f show ?thesis by blast
qed

lemma selectFile_indexed:
  assumes "\<forall>f \<in> set (unprocessedFiles q). f \<in> dom (dependencies q)"
  shows "selectFileWithLeastDependencies q =
           Inr (case firstLeast (unresolved q) \<infinity> (unprocessedFiles q) of
                  [] \<Rightarrow> None | f # _ \<Rightarrow> Some f)"
  unfolding selectFileWithLeastDependencies_def using assms by (rule selectLoop_indexed)

lemma unresolved_indexed:
  assumes "dependencies q f = Some ds"
  shows "unresolved q f =
           length (filter (\<lambda>d. d \<in> set (unprocessedFiles q) \<union> set (processingFiles q)) ds)"
  using assms by (simp add: unresolved_def count_indexed)

text \<open>
  C6: in every state of the file schedule in which each queued file is indexed
  in the dependency graph, \<open>shift\<close> fails exactly when no unprocessed file
  remains, and otherwise returns, moving it from the unprocessed to the
  in-progress set, the first unprocessed file in iteration order whose number
  of dependencies still unprocessed or in progress is least among all
  unprocessed files.
\<close>

theorem C6_shift_least_unresolved:
  assumes "\<forall>f \<in> set (unprocessedFiles q). f \<in> dom (dependencies q)"
  shows "(unprocessedFiles q = [] \<longrightarrow> shift q = Inl (Error ''No more files to process''))
       \<and> ((\<exists>e. shift q = Inl e) \<longleftrightarrow> unprocessedFiles q = [])
       \<and> (unprocessedFiles q \<noteq> [] \<longrightarrow>
            (\<exists>f pre post.
                shift q = Inr (f, q\<lparr>unprocessedFiles := Set_delete f (unprocessedFiles q),
                                      processingFiles := Set_add f (processingFiles q)\<rparr>)
              \<and> unprocessedFiles q = pre @ f # post
              \<and> (\<forall>g \<in> set (unprocessedFiles q).
                    countUnprocessedDependencies q g = Inr (unresolved q g)
                  \<and> unresolved q f \<le> unresolved q g)
              \<and> (\<forall>g \<in> set pre. unresolved q f < unresolved q g)))
       \<and> (\<forall>g ds. dependencies q g = Some ds \<longrightarrow>
            unresolved q g =
              length (filter (\<lambda>d. d \<in> set (unprocessedFiles q) \<union> set (processingFiles q)) ds))"
proof -
  note sel = selectFile_indexed [OF assms]
  have empty: "shift q = Inl (Error ''No more files to process'')" if "unprocessedFiles q = []"
    using that by (simp add: shift_def sel firstLeast_def)
  have nonempty: "\<exists>f pre post.
                shift q = Inr (f, q\<lparr>unprocessedFiles := Set_delete f (unprocessedFiles q),
                                      processingFiles := Set_add f (processingFiles q)\<rparr>)
              \<and> unprocessedFiles q = pre @ f # post
              \<and> (\<forall>g \<in> set (unprocessedFiles q).
                    countUnprocessedDependencies q g = Inr (unresolved q g)
                  \<and> unresolved q f \<le> unresolved q g)
              \<and> (\<forall>g \<in> set pre. unresolved q f < unresolved q g)"
    if ne: "unprocessedFiles q \<noteq> []"
  proof -
    obtain f rest where fl: "firstLeast (unresolved q) \<infinity> (unprocessedFiles q) = f # rest"
      using firstLeast_nonempty [OF ne] by (meson neq_Nil_conv)
    then have s: "shift q = Inr (f, q\<lparr>unprocessedFiles := Set_delete f (unprocessedFiles q),
                                      processingFiles := Set_add f (processingFiles q)\<rparr>)"
      by (simp add: shift_def sel)
    obtain pre post where p: "unprocessedFiles q = pre @ f # post"
        "\<forall>g \<in> set (unprocessedFiles q). unresolved q f \<le> unresolved q g"
        "\<forall>g \<in> set pre. unresolved q f < unresolved q g"
      using firstLeast_head [OF fl] by blast
    have "\<forall>g \<in> set (unprocessedFiles q). countUnprocessedDependencies q g = Inr (unresolved q g)"
      using assms by (simp add: count_indexed_unresolved)
    with s p show ?thesis by blast
  qed
  have fails: "(\<exists>e. shift q = Inl e) \<longleftrightarrow> unprocessedFiles q = []"
  proof
    assume "\<exists>e. shift q = Inl e"
    then obtain e where e: "shift q = Inl e" ..
    show "unprocessedFiles q = []"
    proof (rule ccontr)
      assume "unprocessedFiles q \<noteq> []"
      from nonempty [OF this] obtain f q' where "shift q = Inr (f, q')" by blast
      with e show False by simp
    qed
  next
    assume "unprocessedFiles q = []"
    then show "\<exists>e. shift q = Inl e" using empty by simp
  qed
  have counts: "\<forall>g ds. dependencies q g = Some ds \<longrightarrow>
            unresolved q g =
              length (filter (\<lambda>d. d \<in> set (unprocessedFiles q) \<union> set (processingFiles q)) ds)"
    using unresolved_indexed by blast
  from empty have e: "unprocessedFiles q = [] \<longrightarrow> shift q = Inl (Error ''No more files to process'')"
    by (rule impI)
  from nonempty have n: "unprocessedFiles q \<noteq> [] \<longrightarrow>
            (\<exists>f pre post.
                shift q = Inr (f, q\<lparr>unprocessedFiles := Set_delete f (unprocessedFiles q),
                                      processingFiles := Set_add f (processingFiles q)\<rparr>)
              \<and> unprocessedFiles q = pre @ f # post
              \<and> (\<forall>g \<in> set (unprocessedFiles q).
                    countUnprocessedDependencies q g = Inr (unresolved q g)
                  \<and> unresolved q f \<le> unresolved q g)
              \<and> (\<forall>g \<in> set pre. unresolved q f < unresolved q g))"
    by (rule impI)
  from e fails n counts show ?thesis by (intro conjI)
qed

theorem C6_shift_least_unresolved_witness:
  "shift \<lparr>dependencies = scenario_graph, unprocessedFiles = [pathC, pathB], processingFiles = []\<rparr>
     = Inr (pathB, \<lparr>dependencies = scenario_graph, unprocessedFiles = [pathC],
                     processingFiles = [pathB]\<rparr>)
   \<and> unresolved \<lparr>dependencies = scenario_graph, unprocessedFiles = [pathC, pathB],
                  processingFiles = []\<rparr> pathB = 0
   \<and> unresolved \<lparr>dependencies = scenario_graph, unprocessedFiles = [pathC, pathB],
                  processingFiles = []\<rparr> pathC = 1
   \<and> \<not> (\<exists>e. shift \<lparr>dependencies = scenario_graph, unprocessedFiles = [pathC, pathB],
                        processingFiles = []\<rparr> = Inl e)"
proof -
  let ?q = "\<lparr>dependencies = scenario_graph, unprocessedFiles = [pathC, pathB],
             processingFiles = []\<rparr>"
  have h: "\<forall>f \<in> set (unprocessedFiles ?q). f \<in> dom (dependencies ?q)"
    by (simp add: scenario_graph_def)
  have ne: "unprocessedFiles ?q \<noteq> []" by simp
  from C6_shift_least_unresolved [OF h] have "(\<exists>e. shift ?q = Inl e) \<longleftrightarrow> unprocessedFiles ?q = []"
    by (rule conjunct1 [OF conjunct2])
  with ne have 1: "\<not> (\<exists>e. shift ?q = Inl e)" by simp
  have 2: "unresolved ?q pathB = 0" "unresolved ?q pathC = 1"
    by (simp_all add: unresolved_def queue_defs scenario_graph_def pathA_def pathB_def pathC_def)
  have 3: "shift ?q = Inr (pathB, \<lparr>dependencies = scenario_graph, unprocessedFiles = [pathC],
                     processingFiles = [pathB]\<rparr>)"
    by (simp add: queue_defs scenario_graph_def pathA_def pathB_def pathC_def)
  from 1 2 3 show ?thesis by (intro conjI)
qed

section \<open>The schedule of the orchestrator\<close>

lemma groupLoop_keys:
  "distinct (map fst r) \<Longrightarrow>
   distinct (map fst (groupErrorsByFile_loop es r))
   \<and> set (map fst (groupErrorsByFile_loop es r)) = set (map fst r) \<union> filePath ` set es"
proof (induction es arbitrary: r)
  case Nil
  then show ?case by simp
next
  case (Cons e es)
  show ?case
  proof (cases "map_of r (filePath e)")
    case None
    then have notin: "filePath e \<notin> set (map fst r)" by (simp add: map_of_eq_None_iff)
    with Cons.prems have "distinct (map fst (r @ [(filePath e, [e])]))" by simp
    from Cons.IH [OF this] None show ?thesis by auto
  next
    case (Some existing)
    let ?r = "map (\<lambda>(k, v). if k = filePath e then (k, v @ [e]) else (k, v)) r"
    have k: "map fst ?r = map fst r" by (induction r) auto
    have "distinct (map fst ?r)" unfolding k using Cons.prems .
    from Cons.IH [OF this] have
      "distinct (map fst (groupErrorsByFile_loop es ?r))
       \<and> set (map fst (groupErrorsByFile_loop es ?r)) = set (map fst r) \<union> filePath ` set es"
      by (simp only: k)
    moreover have "filePath e \<in> set (map fst r)"
      using Some by (metis map_of_eq_None_iff option.distinct(1) set_map)
    ultimately show ?thesis using Some by auto
  qed
qed

lemma errorFiles_set:
  "distinct (errorFiles es) \<and> set (errorFiles es) = filePath ` set es"
  using groupLoop_keys [of "[]" es] by (simp add: errorFiles_def Object_keys_def groupErrorsByFile_def)

lemma two_files:
  assumes "distinct xs" "set xs = {b, c}" "b \<noteq> c"
  shows "xs = [b, c] \<or> xs = [c, b]"
proof -
  have "length xs = 2" using assms distinct_card [of xs] by simp
  then obtain x y where xs: "xs = [x, y]"
    by (metis (no_types, opaque_lifting) One_nat_def Suc_1 length_0_conv length_Suc_conv)
  with assms show ?thesis by (auto simp: doubleton_eq_iff)
qed

lemma schedule_of_two:
  assumes "a \<noteq> b" "a \<noteq> c" "b \<noteq> c"
    and "graph a = Some []" "graph b = Some [a]" "graph c = Some [b]"
    and "files = [b, c] \<or> files = [c, b]"
  shows "processFileFromQueue (new_FileQueue graph files) = Inr [b, c]"
    and "\<exists>q'. startAgents 2 (new_FileQueue graph files) = Inr ([b, c], q')
              \<and> \<not> hasUnprocessedFiles q'"
proof -
  have s1: "shift (new_FileQueue graph files)
          = Inr (b, \<lparr>dependencies = graph, unprocessedFiles = [c], processingFiles = [b]\<rparr>)"
    using assms by (auto simp: queue_defs)
  have s2: "shift \<lparr>dependencies = graph, unprocessedFiles = [c], processingFiles = [b]\<rparr>
          = Inr (c, \<lparr>dependencies = graph, unprocessedFiles = [], processingFiles = [b, c]\<rparr>)"
    using assms by (simp add: queue_defs)
  have s3: "shift \<lparr>dependencies = graph, unprocessedFiles = [c], processingFiles = []\<rparr>
          = Inr (c, \<lparr>dependencies = graph, unprocessedFiles = [], processingFiles = [c]\<rparr>)"
    using assms by (simp add: queue_defs)
  have "processFileFromQueue \<lparr>dependencies = graph, unprocessedFiles = [c], processingFiles = []\<rparr>
          = Inr [c]"
    by (subst processFileFromQueue.simps) (simp add: s3 markAsProcessed_def hasUnprocessedFiles_def Set_delete_def)
  then show "processFileFromQueue (new_FileQueue graph files) = Inr [b, c]"
    by (subst processFileFromQueue.simps) (simp add: s1 markAsProcessed_def hasUnprocessedFiles_def Set_delete_def)
  have "startAgents 2 (new_FileQueue graph files)
          = Inr ([b, c], \<lparr>dependencies = graph, unprocessedFiles = [], processingFiles = [b, c]\<rparr>)"
    by (simp add: numeral_2_eq_2 s1 s2)
  then show "\<exists>q'. startAgents 2 (new_FileQueue graph files) = Inr ([b, c], q')
              \<and> \<not> hasUnprocessedFiles q'"
    by (simp add: hasUnprocessedFiles_def)
qed

text \<open>
  C3, amended: in a project with three files where \<open>A\<close> is error-free, \<open>B\<close>
  imports \<open>A\<close> and has errors and \<open>C\<close> imports \<open>B\<close> and has errors, the
  orchestrator queues only the files that have a diagnostic, \<open>B\<close> and \<open>C\<close>;
  its schedule returns \<open>B\<close> first, then \<open>C\<close>, whatever the order of the
  diagnostics and in both phases, and never returns \<open>A\<close>.
\<close>

theorem C3_schedule_only_files_with_errors:
  assumes "a \<noteq> b" "a \<noteq> c" "b \<noteq> c"
    and "graph a = Some []" "graph b = Some [a]" "graph c = Some [b]"
    and "filePath ` set errs = {b, c}"
  shows "set (errorFiles errs) = {b, c}
       \<and> a \<notin> set (errorFiles errs)
       \<and> (phase project \<noteq> 1 \<longrightarrow>
            agentCount project (errorFiles errs) = 1
          \<and> processFileFromQueue (new_FileQueue graph (errorFiles errs)) = Inr [b, c])
       \<and> (phase project = 1 \<longrightarrow>
            (\<exists>q'. startAgents (agentCount project (errorFiles errs))
                        (new_FileQueue graph (errorFiles errs)) = Inr ([b, c], q')
                  \<and> \<not> hasUnprocessedFiles q'))"
proof -
  have d: "distinct (errorFiles errs)"
    using errorFiles_set [of errs] by (rule conjunct1)
  have "set (errorFiles errs) = filePath ` set errs"
    using errorFiles_set [of errs] by (rule conjunct2)
  also have "\<dots> = {b, c}" by (rule assms(7))
  finally have s: "set (errorFiles errs) = {b, c}" .
  have f: "errorFiles errs = [b, c] \<or> errorFiles errs = [c, b]"
    by (rule two_files [OF d s assms(3)])
  then have l: "length (errorFiles errs) = 2" by auto
  have n: "a \<notin> set (errorFiles errs)" using s assms(1,2) by simp
  note sched = schedule_of_two [OF assms(1-6) f]
  have c1: "agentCount project (errorFiles errs) = 1" if "phase project \<noteq> 1"
    using that l by (simp add: agentCount_def maxConcurrency_def)
  have c2: "agentCount project (errorFiles errs) = 2" if "phase project = 1"
    using that l by (simp add: agentCount_def maxConcurrency_def)
  from sched(1) c1 have p2: "phase project \<noteq> 1 \<longrightarrow>
            agentCount project (errorFiles errs) = 1
          \<and> processFileFromQueue (new_FileQueue graph (errorFiles errs)) = Inr [b, c]"
    by blast
  from sched(2) c2 have p1: "phase project = 1 \<longrightarrow>
            (\<exists>q'. startAgents (agentCount project (errorFiles errs))
                        (new_FileQueue graph (errorFiles errs)) = Inr ([b, c], q')
                  \<and> \<not> hasUnprocessedFiles q')"
    by simp
  from s n p2 p1 show ?thesis by (intro conjI)
qed

lemma scenario_errorFiles: "errorFiles scenario_errors = [pathB, pathC]"
  by (simp add: errorFiles_def Object_keys_def groupErrorsByFile_def scenario_errors_def
      scenario_error_def pathB_def pathC_def)

text \<open>
  C3, as stated, fails: on the scenario the schedule is \<open>B, C\<close>, not
  \<open>A, B, C\<close>.
\<close>

theorem C3_counterexample:
  "processFileFromQueue (new_FileQueue scenario_graph (errorFiles scenario_errors))
     = Inr [pathB, pathC]
   \<and> processFileFromQueue (new_FileQueue scenario_graph (errorFiles scenario_errors))
     \<noteq> Inr [pathA, pathB, pathC]"
proof -
  have "processFileFromQueue (new_FileQueue scenario_graph [pathB, pathC]) = Inr [pathB, pathC]"
    by (rule schedule_of_two(1) [where a = pathA])
       (simp_all add: scenario_graph_def pathA_def pathB_def pathC_def)
  then show ?thesis by (simp add: scenario_errorFiles)
qed

theorem C3_witness:
  "set (errorFiles scenario_errors) = {pathB, pathC}
   \<and> processFileFromQueue (new_FileQueue scenario_graph (errorFiles scenario_errors))
        = Inr [pathB, pathC]"
proof -
  have h: "pathA \<noteq> pathB" "pathA \<noteq> pathC" "pathB \<noteq> pathC"
    "scenario_graph pathA = Some []" "scenario_graph pathB = Some [pathA]"
    "scenario_graph pathC = Some [pathB]"
    "filePath ` set scenario_errors = {pathB, pathC}"
    by (simp_all add: scenario_graph_def scenario_errors_def scenario_error_def
        pathA_def pathB_def pathC_def)
  from C3_schedule_only_files_with_errors [OF h, of "\<lparr>project_path = ''/p'', phase = 2, language = Some Typescript\<rparr>"]
  show ?thesis by simp
qed

section \<open>The diagnostic aggregator\<close>

lemma map_throwing_Inr:
  "map_throwing f xs = Inr ys \<Longrightarrow> list_all2 (\<lambda>x y. f x = Inr y) xs ys"
proof (induction xs arbitrary: ys)
  case Nil
  then show ?case by simp
next
  case (Cons x xs)
  then show ?case by (auto split: sum.splits)
qed

lemma list_all2_right:
  "list_all2 P xs ys \<Longrightarrow> y \<in> set ys \<Longrightarrow> \<exists>x \<in> set xs. P x y"
  by (induction rule: list_all2_induct) auto




lemma convertTsDiagnostic_Inr:
  assumes "convertTsDiagnostic d = Inr e"
  shows "\<exists>f s. diagnostic_file d = Some f \<and> start d = Some s
           \<and> source e = SourceTypescript
           \<and> filePath e = fileName f
           \<and> line e = int (fst (getLineAndCharacterOfPosition f s)) + 1
           \<and> column e = int (snd (getLineAndCharacterOfPosition f s)) + 1"
  using assms by (auto simp: convertTsDiagnostic_def split: option.splits prod.splits)

lemma getTsErrors_filtered:
  assumes "getTsErrors p fileOpt = Inr ds"
  shows "ds = filterErrors (getPreEmitDiagnostics p fileOpt)"
  using assms
  by (auto simp: getTsErrors_def getDiagnostics_def split: sum.splits option.splits)

text \<open>What \<open>getErrors\<close> returns: the converted type-checker errors, then the
  converted lint findings when the linter runs.\<close>

lemma getErrors_Inr:
  assumes "getErrors project checkers fileOpt = Inr es"
  shows "\<exists>ds ts ls. getTsErrors (program checkers) fileOpt = Inr ds
           \<and> list_all2 (\<lambda>d e. convertTsDiagnostic d = Inr e) ds ts
           \<and> es = ts @ map convertESLintError ls
           \<and> (ls = [] \<or> getESLintErrors (lintFiles checkers) (program checkers) fileOpt = Inr ls)"
proof -
  from assms obtain ds where ds: "getTsErrors (program checkers) fileOpt = Inr ds"
    by (auto simp: getErrors_def split: sum.splits)
  with assms obtain ts where ts: "map_throwing convertTsDiagnostic ds = Inr ts"
    by (auto simp: getErrors_def split: sum.splits)
  note l2 = map_throwing_Inr [OF ts]
  show ?thesis
  proof (cases "phase project = 1")
    case True
    with assms ds ts have "es = ts @ map convertESLintError []" by (simp add: getErrors_def)
    with ds l2 show ?thesis by blast
  next
    case False
    with assms ds ts obtain l where l: "Project_language project = Inr l"
      by (auto simp: getErrors_def split: sum.splits)
    show ?thesis
    proof (cases "l = Javascript")
      case True
      with assms ds ts l False have "es = ts @ map convertESLintError []"
        by (simp add: getErrors_def)
      with ds l2 show ?thesis by blast
    next
      case nj: False
      with assms ds ts l False obtain ls where
        "getESLintErrors (lintFiles checkers) (program checkers) fileOpt = Inr ls"
        "es = ts @ map convertESLintError ls"
        by (auto simp: getErrors_def split: sum.splits)
      with ds l2 show ?thesis by blast
    qed
  qed
qed


lemma getErrors_typescript_part:
  assumes "getErrors project checkers fileOpt = Inr es" "e \<in> set es" "source e = SourceTypescript"
  shows "\<exists>d \<in> set (getPreEmitDiagnostics (program checkers) fileOpt). \<exists>f s.
            category d = ErrorCategory \<and> \<not> reportsUnnecessary d
          \<and> diagnostic_file d = Some f \<and> start d = Some s
          \<and> filePath e = fileName f
          \<and> line e = int (fst (getLineAndCharacterOfPosition f s)) + 1
          \<and> column e = int (snd (getLineAndCharacterOfPosition f s)) + 1"
proof -
  from getErrors_Inr [OF assms(1)] obtain ds ts ls where
    ds: "getTsErrors (program checkers) fileOpt = Inr ds"
    and l2: "list_all2 (\<lambda>d e. convertTsDiagnostic d = Inr e) ds ts"
    and es: "es = ts @ map convertESLintError ls"
    by blast
  have "e \<notin> set (map convertESLintError ls)"
    using assms(3) by (auto simp: convertESLintError_def)
  with assms(2) es have "e \<in> set ts" by simp
  from list_all2_right [OF l2 this] obtain d where
    d: "d \<in> set ds" "convertTsDiagnostic d = Inr e"
    by blast
  from d(1) getTsErrors_filtered [OF ds]
  have "d \<in> set (getPreEmitDiagnostics (program checkers) fileOpt)"
    "category d = ErrorCategory" "\<not> reportsUnnecessary d"
    by (simp_all add: filterErrors_def)
  with convertTsDiagnostic_Inr [OF d(2)] show ?thesis by blast
qed

lemma getErrors_eslint_part:
  assumes "getErrors project checkers fileOpt = Inr es" "e \<in> set es" "source e = SourceEslint"
  shows "\<exists>ls. getESLintErrors (lintFiles checkers) (program checkers) fileOpt = Inr ls
          \<and> (\<exists>l \<in> set ls. e = convertESLintError l)"
proof -
  from getErrors_Inr [OF assms(1)] obtain ds ts ls where
    l2: "list_all2 (\<lambda>d e. convertTsDiagnostic d = Inr e) ds ts"
    and es: "es = ts @ map convertESLintError ls"
    and ls: "ls = [] \<or> getESLintErrors (lintFiles checkers) (program checkers) fileOpt = Inr ls"
    by blast
  have "e \<notin> set ts"
  proof
    assume "e \<in> set ts"
    from list_all2_right [OF l2 this] obtain d where "convertTsDiagnostic d = Inr e"
      by blast
    from convertTsDiagnostic_Inr [OF this] assms(3) show False by auto
  qed
  with assms(2) es have m: "e \<in> set (map convertESLintError ls)" by simp
  then have "ls \<noteq> []" by auto
  with ls have "getESLintErrors (lintFiles checkers) (program checkers) fileOpt = Inr ls" by simp
  with m show ?thesis by auto
qed


lemma getESLintErrorsForFile_positions:
  assumes "\<forall>fp results. lint fp = Inr results \<longrightarrow>
             (\<forall>r \<in> set results. \<forall>m \<in> set (messages r).
                1 \<le> message_line m \<and> 1 \<le> message_column m)"
    and "getESLintErrorsForFile lint fp = Inr ls"
  shows "\<forall>l \<in> set ls. 1 \<le> eslint_line l \<and> 1 \<le> eslint_column l"
proof -
  from assms(2) obtain results where r: "lint fp = Inr results"
    and ls: "ls = concat (map (\<lambda>result.
                 map (\<lambda>m. \<lparr>eslint_filePath = result_filePath result,
                            eslint_line = message_line m,
                            eslint_column = message_column m,
                            eslint_message = message_text m,
                            ruleId = message_ruleId m,
                            severity = message_severity m\<rparr>)
                     (messages result))
               results)"
    by (auto simp: getESLintErrorsForFile_def split: sum.splits)
  from assms(1) r have "\<forall>r \<in> set results. \<forall>m \<in> set (messages r).
                1 \<le> message_line m \<and> 1 \<le> message_column m"
    by blast
  then show ?thesis unfolding ls by auto
qed

lemma getAllESLintErrors_loop_positions:
  assumes "\<forall>fp results. lint fp = Inr results \<longrightarrow>
             (\<forall>r \<in> set results. \<forall>m \<in> set (messages r).
                1 \<le> message_line m \<and> 1 \<le> message_column m)"
    and "\<forall>l \<in> set acc. 1 \<le> eslint_line l \<and> 1 \<le> eslint_column l"
    and "getAllESLintErrors_loop lint fps acc = Inr ls"
  shows "\<forall>l \<in> set ls. 1 \<le> eslint_line l \<and> 1 \<le> eslint_column l"
  using assms(2,3)
proof (induction fps arbitrary: acc)
  case Nil
  then show ?case by simp
next
  case (Cons fp fps)
  from Cons.prems(2) obtain errs where e: "getESLintErrorsForFile lint fp = Inr errs"
    and rest: "getAllESLintErrors_loop lint fps (acc @ errs) = Inr ls"
    by (auto split: sum.splits)
  from getESLintErrorsForFile_positions [OF assms(1) e] Cons.prems(1)
  have "\<forall>l \<in> set (acc @ errs). 1 \<le> eslint_line l \<and> 1 \<le> eslint_column l"
    by auto
  from Cons.IH [OF this rest] show ?case .
qed

lemma getESLintErrors_positions:
  assumes "\<forall>fp results. lint fp = Inr results \<longrightarrow>
             (\<forall>r \<in> set results. \<forall>m \<in> set (messages r).
                1 \<le> message_line m \<and> 1 \<le> message_column m)"
    and "getESLintErrors lint p fileOpt = Inr ls"
  shows "\<forall>l \<in> set ls. 1 \<le> eslint_line l \<and> 1 \<le> eslint_column l"
proof (cases fileOpt)
  case None
  with assms(2) have "getAllESLintErrors_loop lint (getProjectSourceFiles p) [] = Inr ls"
    by (simp add: getESLintErrors_def getAllESLintErrors_def)
  from getAllESLintErrors_loop_positions [OF assms(1) _ this] show ?thesis by simp
next
  case (Some fp)
  with assms(2) have "getESLintErrorsForFile lint fp = Inr ls"
    by (simp add: getESLintErrors_def)
  from getESLintErrorsForFile_positions [OF assms(1) this] show ?thesis .
qed

lemma getErrors_positions:
  assumes "\<forall>fp results. lintFiles checkers fp = Inr results \<longrightarrow>
             (\<forall>r \<in> set results. \<forall>m \<in> set (messages r).
                1 \<le> message_line m \<and> 1 \<le> message_column m)"
    and "getErrors project checkers fileOpt = Inr es" "e \<in> set es"
  shows "1 \<le> line e \<and> 1 \<le> column e"
proof (cases "source e")
  case SourceTypescript
  from getErrors_typescript_part [OF assms(2,3) this] show ?thesis by auto
next
  case SourceEslint
  from getErrors_eslint_part [OF assms(2,3) this] obtain ls l where
    ls: "getESLintErrors (lintFiles checkers) (program checkers) fileOpt = Inr ls"
    and l: "l \<in> set ls" "e = convertESLintError l"
    by blast
  from getESLintErrors_positions [OF assms(1) ls] l(1)
  have "1 \<le> eslint_line l \<and> 1 \<le> eslint_column l" by blast
  with l(2) show ?thesis by (simp add: convertESLintError_def)
qed







text \<open>
  C8 on the linter's side: the aggregator surfaces a lint message of severity 1
  (a warning). \<open>getESLintErrorsForFile\<close> copies the severity into the record
  and nothing reads it; the only finding of the run below is a warning, and
  \<open>getErrors\<close> returns it as a diagnostic of the scope.
\<close>

theorem C8_linter_warning_surfaced:
  "getESLintErrors (lintFiles warned_checkers) (program warned_checkers) (Some warned_file)
     = Inr [\<lparr>eslint_filePath = warned_file, eslint_line = 0, eslint_column = 0,
             eslint_message = ''File ignored because of a matching ignore pattern.'',
             ruleId = None, severity = 1\<rparr>]
   \<and> getErrors warned_project warned_checkers (Some warned_file)
     = Inr [\<lparr>source = SourceEslint, filePath = warned_file, line = 0, column = 0,
             message = ''File ignored because of a matching ignore pattern.'',
             code = CodeNull\<rparr>]"
  by (simp add: getErrors_def getTsErrors_def getDiagnostics_def getSourceFile_def
      filterErrors_def Project_language_def getESLintErrors_def getESLintErrorsForFile_def
      convertESLintError_def warned_checkers_def warned_project_def ignore_warning_def)

text \<open>
  The type checker's side of C8 holds: every type-checker diagnostic that
  \<open>getErrors\<close> returns stems from a diagnostic of category error that is not
  flagged as unnecessary.
\<close>

lemma getErrors_typescript_errors_only:
  assumes "getErrors project checkers fileOpt = Inr es" "e \<in> set es" "source e = SourceTypescript"
  shows "\<exists>d \<in> set (getPreEmitDiagnostics (program checkers) fileOpt).
            category d = ErrorCategory \<and> \<not> reportsUnnecessary d
          \<and> convertTsDiagnostic d = Inr e"
proof -
  from getErrors_Inr [OF assms(1)] obtain ds ts ls where
    ds: "getTsErrors (program checkers) fileOpt = Inr ds"
    and l2: "list_all2 (\<lambda>d e. convertTsDiagnostic d = Inr e) ds ts"
    and es: "es = ts @ map convertESLintError ls"
    by blast
  have "e \<notin> set (map convertESLintError ls)"
    using assms(3) by (auto simp: convertESLintError_def)
  with assms(2) es have "e \<in> set ts" by simp
  from list_all2_right [OF l2 this] obtain d where
    d: "d \<in> set ds" "convertTsDiagnostic d = Inr e"
    by blast
  from d(1) getTsErrors_filtered [OF ds]
  have "d \<in> set (getPreEmitDiagnostics (program checkers) fileOpt)"
    "category d = ErrorCategory" "\<not> reportsUnnecessary d"
    by (simp_all add: filterErrors_def)
  with d(2) show ?thesis by blast
qed

section \<open>The behaviour verification gate\<close>

lemma handlePre_keeps:
  assumes "original st f = Some v"
  shows "original (snd (handlePreToolUseEvent env fs toolName toolInput st)) f = Some v"
proof -
  have "original (snd (handlePreToolUseEvent env fs toolName toolInput st)) f = original st f"
    using assms
    by (auto simp: handlePreToolUseEvent_def split: sum.splits option.splits)
  with assms show ?thesis by simp
qed

lemma handlePost_keeps:
  "original (snd (handlePostToolUseEvent env fs toolName toolInput st)) = original st"
  by (auto simp: handlePostToolUseEvent_def split: sum.splits option.splits)

lemma hook_original:
  "original (snd (hook env fs input st))
     = original (snd (case input of
              PreToolUseInput toolName toolInput \<Rightarrow> handlePreToolUseEvent env fs toolName toolInput st
            | PostToolUseInput toolName toolInput \<Rightarrow> handlePostToolUseEvent env fs toolName toolInput st
            | OtherHookInput \<Rightarrow> (Inr EmptyOutput, st)))"
  by (auto simp: hook_def split: prod.splits sum.splits)

lemma hook_keeps:
  assumes "original st f = Some v"
  shows "original (snd (hook env fs input st)) f = Some v"
proof (cases input)
  case (PreToolUseInput toolName toolInput)
  then show ?thesis using handlePre_keeps [OF assms] by (simp add: hook_original)
next
  case (PostToolUseInput toolName toolInput)
  then show ?thesis using assms by (simp add: hook_original handlePost_keeps)
next
  case OtherHookInput
  then show ?thesis using assms by (simp add: hook_original)
qed

lemma hooks_run_keeps:
  assumes "original st f = Some v"
  shows "original (snd (hooks_run env events st)) f = Some v"
  using assms
proof (induction events arbitrary: st)
  case Nil
  then show ?case by simp
next
  case (Cons ev events)
  obtain fs input where ev: "ev = (fs, input)" by (cases ev)
  obtain out st1 where h: "hook env fs input st = (out, st1)" by (cases "hook env fs input st")
  have "original st1 f = Some v" using hook_keeps [OF Cons.prems, of env fs input] h by simp
  from Cons.IH [OF this] show ?case by (auto simp: ev h split: prod.splits)
qed

lemma hook_pre_first:
  assumes "isFileModificationTool toolName" "extractFilePath env toolInput = Inr f"
    and "original st f = None" "transpile (lowering env) fs f = Inr t"
  shows "hook env fs (PreToolUseInput toolName toolInput) st
           = (EmptyOutput, st\<lparr>original := (original st)(f \<mapsto> t)\<rparr>)"
  using assms by (simp add: hook_def handlePreToolUseEvent_def)

lemma hook_pre_again:
  assumes "isFileModificationTool toolName" "extractFilePath env toolInput = Inr f"
    and "original st f = Some v"
  shows "hook env fs (PreToolUseInput toolName toolInput) st = (EmptyOutput, st)"
  using assms by (simp add: hook_def handlePreToolUseEvent_def)

text \<open>
  C5: the first pre-edit observation of a file computes its canonical lowered
  form and stores it; every later pre-edit observation of the file leaves the
  whole state as it is, whatever the file holds by then; and no later hook
  call of the run, before or after an edit, of this or another file, changes
  the stored snapshot: it stays the lowering of the content at the time of the
  first observation.
\<close>

theorem C5_pre_edit_snapshot_kept:
  assumes "isFileModificationTool toolName" "extractFilePath env toolInput = Inr f"
    and "original st f = None" "transpile (lowering env) fs f = Inr t"
  shows "hook env fs (PreToolUseInput toolName toolInput) st
           = (EmptyOutput, st\<lparr>original := (original st)(f \<mapsto> t)\<rparr>)
       \<and> (\<forall>events.
            original (snd (hooks_run env events
                             (snd (hook env fs (PreToolUseInput toolName toolInput) st)))) f
              = Some t)
       \<and> (\<forall>fs' st'. original st' f \<noteq> None \<longrightarrow>
            hook env fs' (PreToolUseInput toolName toolInput) st' = (EmptyOutput, st'))"
proof (intro conjI allI impI)
  show first: "hook env fs (PreToolUseInput toolName toolInput) st
           = (EmptyOutput, st\<lparr>original := (original st)(f \<mapsto> t)\<rparr>)"
    using assms by (rule hook_pre_first)
  fix events
  have "original (snd (hook env fs (PreToolUseInput toolName toolInput) st)) f = Some t"
    by (simp add: first)
  then show "original (snd (hooks_run env events
                             (snd (hook env fs (PreToolUseInput toolName toolInput) st)))) f
              = Some t"
    by (rule hooks_run_keeps)
next
  fix fs' and st' :: HookState
  assume "original st' f \<noteq> None"
  then obtain v where "original st' f = Some v" by blast
  with assms(1,2) show "hook env fs' (PreToolUseInput toolName toolInput) st' = (EmptyOutput, st')"
    by (rule hook_pre_again)
qed

lemma example_path: "extractFilePath example_env example_edit = Inr ''/p/a.js''"
  by (simp add: extractFilePath_def example_env_def example_edit_def isAbsolute_def)

lemma example_transpile:
  "transpile (lowering example_env) [''/p/a.js'' \<mapsto> src] ''/p/a.js''
     = Inr (filter (\<lambda>c. c \<noteq> CHR '' '') src)"
  by (simp add: transpile_def readFile_def example_env_def)

theorem C5_pre_edit_snapshot_kept_witness:
  "original (snd (hooks_run example_env
       [([''/p/a.js'' \<mapsto> ''x = 2''], PreToolUseInput ''Edit'' example_edit),
        ([''/p/a.js'' \<mapsto> ''x = 2''], PostToolUseInput ''Edit'' example_edit)]
       (snd (hook example_env [''/p/a.js'' \<mapsto> ''x = 1''] (PreToolUseInput ''Edit'' example_edit)
               example_state)))) ''/p/a.js''
     = Some ''x=1''"
proof -
  have h: "isFileModificationTool ''Edit''"
    "extractFilePath example_env example_edit = Inr ''/p/a.js''"
    "original example_state ''/p/a.js'' = None"
    "transpile (lowering example_env) [''/p/a.js'' \<mapsto> ''x = 1''] ''/p/a.js'' = Inr ''x=1''"
    by (simp_all add: isFileModificationTool_def example_path example_transpile example_state_def)
  from C5_pre_edit_snapshot_kept [OF h] show ?thesis by blast
qed

lemma hook_post_equal:
  assumes "isFileModificationTool toolName" "extractFilePath env toolInput = Inr f"
    and "original st f = Some snapshot" "transpile (lowering env) fs f = Inr snapshot"
  shows "hook env fs (PostToolUseInput toolName toolInput) st = (EmptyOutput, st)"
  using assms by (simp add: hook_def handlePostToolUseEvent_def detectRuntimeChange_def)

lemma hook_post_different:
  assumes "isFileModificationTool toolName" "extractFilePath env toolInput = Inr f"
    and "original st f = Some snapshot" "transpile (lowering env) fs f = Inr current"
    and "current \<noteq> snapshot"
  shows "hook env fs (PostToolUseInput toolName toolInput) st
           = (PostToolUseContext
                (additionalContext f (createPatch env f snapshot current ''original'' ''modified'')),
              st\<lparr>behaviorModificationsDetected := behaviorModificationsDetected st + 1\<rparr>)"
  using assms by (simp add: hook_def handlePostToolUseEvent_def detectRuntimeChange_def)

lemma hooks_run_post_equal:
  assumes "isFileModificationTool toolName" "extractFilePath env toolInput = Inr f"
    and "original st f = Some snapshot" "transpile (lowering env) fs f = Inr snapshot"
  shows "hooks_run env (replicate n (fs, PostToolUseInput toolName toolInput)) st
           = (replicate n EmptyOutput, st)"
proof (induction n)
  case 0
  show ?case by simp
next
  case (Suc n)
  then show ?case by (simp add: hook_post_equal [OF assms])
qed

lemma additionalContext_text:
  "additionalContext f diff =
     ''CRITICAL: You modified the runtime behavior in '' @ [CHR 0x27] @ f @ [CHR 0x27]
       @ ''.'' @ [CHR 0x0A, CHR 0x0A]
     @ ''You MUST NOT change any code logic.'' @ [CHR 0x0A, CHR 0x0A]
     @ ''Here is the diff showing the runtime changes you made:'' @ [CHR 0x0A, CHR 0x0A]
     @ ''<diff>'' @ [CHR 0x0A] @ diff @ ''</diff>'' @ [CHR 0x0A, CHR 0x0A]
     @ ''Revert ALL runtime changes immediately.''"
  by (simp add: additionalContext_def newline_def)

text \<open>
  C4: a post-edit observation of a file whose snapshot is stored recomputes
  the canonical lowered form. If it equals the snapshot, the hook answers the
  empty output and leaves the state, counter included, as it is. If it
  differs, the counter grows by exactly one and the hook answers, as
  additional context of the event \<open>PostToolUse\<close>, with the correction
  directive: the text that names the file, forbids changes of the code logic,
  shows between \<open><diff>\<close> and \<open></diff>\<close> the patch from the snapshot to the
  current form, and demands to revert. So any number of post-edit
  observations of a file whose lowering is the one of the snapshot, and those
  that follow the pre-edit observation with no edit in between in particular,
  report nothing and change nothing.
\<close>

theorem C4_post_edit_observation:
  assumes "isFileModificationTool toolName" "extractFilePath env toolInput = Inr f"
    and "original st f = Some snapshot" "transpile (lowering env) fs f = Inr current"
  shows "(current = snapshot \<longrightarrow>
            hook env fs (PostToolUseInput toolName toolInput) st = (EmptyOutput, st))
       \<and> (current \<noteq> snapshot \<longrightarrow>
            hook env fs (PostToolUseInput toolName toolInput) st
              = (PostToolUseContext
                   (''CRITICAL: You modified the runtime behavior in '' @ [CHR 0x27] @ f @ [CHR 0x27]
                      @ ''.'' @ [CHR 0x0A, CHR 0x0A]
                    @ ''You MUST NOT change any code logic.'' @ [CHR 0x0A, CHR 0x0A]
                    @ ''Here is the diff showing the runtime changes you made:''
                      @ [CHR 0x0A, CHR 0x0A]
                    @ ''<diff>'' @ [CHR 0x0A]
                    @ createPatch env f snapshot current ''original'' ''modified''
                    @ ''</diff>'' @ [CHR 0x0A, CHR 0x0A]
                    @ ''Revert ALL runtime changes immediately.''),
                 st\<lparr>behaviorModificationsDetected := behaviorModificationsDetected st + 1\<rparr>))
       \<and> (current = snapshot \<longrightarrow>
            (\<forall>n. hooks_run env (replicate n (fs, PostToolUseInput toolName toolInput)) st
                   = (replicate n EmptyOutput, st)))
       \<and> (\<forall>st0 n. original st0 f = None \<longrightarrow>
            hooks_run env ((fs, PreToolUseInput toolName toolInput)
                            # replicate n (fs, PostToolUseInput toolName toolInput)) st0
              = (replicate (Suc n) EmptyOutput, st0\<lparr>original := (original st0)(f \<mapsto> current)\<rparr>))"
proof (intro conjI allI impI)
  assume "current = snapshot"
  with assms show "hook env fs (PostToolUseInput toolName toolInput) st = (EmptyOutput, st)"
    by (simp add: hook_post_equal)
next
  assume "current \<noteq> snapshot"
  with assms have "hook env fs (PostToolUseInput toolName toolInput) st
              = (PostToolUseContext
                   (additionalContext f
                      (createPatch env f snapshot current ''original'' ''modified'')),
                 st\<lparr>behaviorModificationsDetected := behaviorModificationsDetected st + 1\<rparr>)"
    by (rule hook_post_different)
  then show "hook env fs (PostToolUseInput toolName toolInput) st
              = (PostToolUseContext
                   (''CRITICAL: You modified the runtime behavior in '' @ [CHR 0x27] @ f @ [CHR 0x27]
                      @ ''.'' @ [CHR 0x0A, CHR 0x0A]
                    @ ''You MUST NOT change any code logic.'' @ [CHR 0x0A, CHR 0x0A]
                    @ ''Here is the diff showing the runtime changes you made:''
                      @ [CHR 0x0A, CHR 0x0A]
                    @ ''<diff>'' @ [CHR 0x0A]
                    @ createPatch env f snapshot current ''original'' ''modified''
                    @ ''</diff>'' @ [CHR 0x0A, CHR 0x0A]
                    @ ''Revert ALL runtime changes immediately.''),
                 st\<lparr>behaviorModificationsDetected := behaviorModificationsDetected st + 1\<rparr>)"
    by (simp only: additionalContext_text)
next
  fix n
  assume "current = snapshot"
  with assms show "hooks_run env (replicate n (fs, PostToolUseInput toolName toolInput)) st
                   = (replicate n EmptyOutput, st)"
    by (simp add: hooks_run_post_equal)
next
  fix st0 :: HookState and n
  assume none: "original st0 f = None"
  have pre: "hook env fs (PreToolUseInput toolName toolInput) st0
           = (EmptyOutput, st0\<lparr>original := (original st0)(f \<mapsto> current)\<rparr>)"
    using assms(1,2) none assms(4) by (rule hook_pre_first)
  have "original (st0\<lparr>original := (original st0)(f \<mapsto> current)\<rparr>) f = Some current" by simp
  from hooks_run_post_equal [OF assms(1,2) this assms(4)]
  have "hooks_run env (replicate n (fs, PostToolUseInput toolName toolInput))
          (st0\<lparr>original := (original st0)(f \<mapsto> current)\<rparr>)
        = (replicate n EmptyOutput, st0\<lparr>original := (original st0)(f \<mapsto> current)\<rparr>)" .
  with pre show "hooks_run env ((fs, PreToolUseInput toolName toolInput)
                            # replicate n (fs, PostToolUseInput toolName toolInput)) st0
              = (replicate (Suc n) EmptyOutput, st0\<lparr>original := (original st0)(f \<mapsto> current)\<rparr>)"
    by simp
qed

theorem C4_post_edit_observation_witness:
  "hook example_env [''/p/a.js'' \<mapsto> ''x = 2''] (PostToolUseInput ''Edit'' example_edit)
     (example_state\<lparr>original := [''/p/a.js'' \<mapsto> ''x=1'']\<rparr>)
   = (PostToolUseContext
        (''CRITICAL: You modified the runtime behavior in '' @ [CHR 0x27] @ ''/p/a.js'' @ [CHR 0x27]
           @ ''.'' @ [CHR 0x0A, CHR 0x0A]
         @ ''You MUST NOT change any code logic.'' @ [CHR 0x0A, CHR 0x0A]
         @ ''Here is the diff showing the runtime changes you made:'' @ [CHR 0x0A, CHR 0x0A]
         @ ''<diff>'' @ [CHR 0x0A]
         @ ''-x=1'' @ [CHR 0x0A] @ ''+x=2'' @ [CHR 0x0A]
         @ ''</diff>'' @ [CHR 0x0A, CHR 0x0A]
         @ ''Revert ALL runtime changes immediately.''),
      example_state\<lparr>original := [''/p/a.js'' \<mapsto> ''x=1''], behaviorModificationsDetected := 1\<rparr>)
   \<and> hook example_env [''/p/a.js'' \<mapsto> ''x  =  1''] (PostToolUseInput ''Edit'' example_edit)
     (example_state\<lparr>original := [''/p/a.js'' \<mapsto> ''x=1'']\<rparr>)
   = (EmptyOutput, example_state\<lparr>original := [''/p/a.js'' \<mapsto> ''x=1'']\<rparr>)"
proof -
  let ?st = "example_state\<lparr>original := [''/p/a.js'' \<mapsto> ''x=1'']\<rparr>"
  have h: "isFileModificationTool ''Edit''"
    "extractFilePath example_env example_edit = Inr ''/p/a.js''"
    "original ?st ''/p/a.js'' = Some ''x=1''"
    by (simp_all add: isFileModificationTool_def example_path)
  have t2: "transpile (lowering example_env) [''/p/a.js'' \<mapsto> ''x = 2''] ''/p/a.js'' = Inr ''x=2''"
    and t1: "transpile (lowering example_env) [''/p/a.js'' \<mapsto> ''x  =  1''] ''/p/a.js'' = Inr ''x=1''"
    by (simp_all add: example_transpile)
  have c: "behaviorModificationsDetected ?st = 0" by (simp add: example_state_def)
  have p: "createPatch example_env ''/p/a.js'' ''x=1'' ''x=2'' ''original'' ''modified''
             = ''-x=1'' @ [CHR 0x0A] @ ''+x=2'' @ [CHR 0x0A]"
    by (simp add: example_env_def newline_def)
  from C4_post_edit_observation [OF h t2] C4_post_edit_observation [OF h t1] c p
  show ?thesis by simp
qed

text \<open>
  C2, as stated, fails: a post-edit observation that finds no snapshot does
  throw inside \<open>detectRuntimeChange\<close>, but the \<^verbatim>\<open>catch\<close> of the hook
  takes the error: the hook logs it and answers the empty output.
\<close>

theorem C2_counterexample:
  "detectRuntimeChange example_env [''/p/a.js'' \<mapsto> ''x = 2''] ''/p/a.js'' example_state
     = Inl (Error ''Missing original code for /p/a.js'')
   \<and> hook example_env [''/p/a.js'' \<mapsto> ''x = 2''] (PostToolUseInput ''Edit'' example_edit)
       example_state
     = (EmptyOutput,
        example_state\<lparr>console_error :=
          [red ''Error in file modification hook: Error: Missing original code for /p/a.js'']\<rparr>)"
  by (simp add: hook_def handlePostToolUseEvent_def detectRuntimeChange_def example_path
      isFileModificationTool_def example_state_def error_toString_def error_message_def)

text \<open>
  C2, amended: if a post-edit observation finds that no snapshot was stored for
  the edited file, \<open>detectRuntimeChange\<close> throws, and the hook catches the
  error: it is logged with \<^verbatim>\<open>console.error\<close>, the hook answers the empty
  output, the snapshot table and the violation counter stay as they are, and
  nothing propagates to the run.
\<close>

theorem C2_missing_snapshot_logged_and_skipped:
  assumes "isFileModificationTool toolName" "extractFilePath env toolInput = Inr f"
    and "original st f = None"
  shows "detectRuntimeChange env fs f st = Inl (Error (''Missing original code for '' @ f))
       \<and> hook env fs (PostToolUseInput toolName toolInput) st
         = (EmptyOutput,
            st\<lparr>console_error := console_error st
                  @ [red (''Error in file modification hook: Error: Missing original code for '' @ f)]\<rparr>)"
  using assms
  by (simp add: hook_def handlePostToolUseEvent_def detectRuntimeChange_def
      error_toString_def error_message_def)

theorem C2_missing_snapshot_logged_and_skipped_witness:
  "hook example_env Map.empty (PostToolUseInput ''MultiEdit'' example_edit) example_state
     = (EmptyOutput,
        example_state\<lparr>console_error :=
          [red ''Error in file modification hook: Error: Missing original code for /p/a.js'']\<rparr>)"
proof -
  have h: "isFileModificationTool ''MultiEdit''"
    "extractFilePath example_env example_edit = Inr ''/p/a.js''"
    "original example_state ''/p/a.js'' = None"
    by (simp_all add: isFileModificationTool_def example_path example_state_def)
  from C2_missing_snapshot_logged_and_skipped [OF h, of Map.empty]
  show ?thesis by (simp add: example_state_def)
qed

section \<open>The error report\<close>

lemma Map_push_keys: "map fst (Map_push key e m) = map fst m"
  by (induction m) (auto simp: Map_push_def)

lemma Map_push_errors:
  assumes "distinct (map fst m)" "map_of m key = Some g"
  shows "mset (grouped_errors (Map_push key e m)) = mset (grouped_errors m) + {#e#}"
  using assms
proof (induction m)
  case Nil
  then show ?case by simp
next
  case (Cons kv m)
  obtain k g' where kv: "kv = (k, g')" by (cases kv)
  show ?case
  proof (cases "k = key")
    case True
    then have "key \<notin> fst ` set m" using Cons.prems(1) kv by auto
    then have "\<forall>x \<in> set m. (case x of (k, g) \<Rightarrow> if k = key then (k, g\<lparr>errors := errors g @ [e]\<rparr>) else (k, g)) = x"
      by force
    then have "Map_push key e m = m" unfolding Map_push_def by (simp add: map_idI)
    then have "Map_push key e (kv # m) = (k, g'\<lparr>errors := errors g' @ [e]\<rparr>) # m"
      using True kv by (simp add: Map_push_def)
    then show ?thesis by (simp add: grouped_errors_def kv)
  next
    case False
    then have "map_of m key = Some g" using Cons.prems(2) kv by simp
    moreover have "distinct (map fst m)" using Cons.prems(1) by simp
    ultimately have ih: "mset (grouped_errors (Map_push key e m)) = mset (grouped_errors m) + {#e#}"
      by (rule Cons.IH [rotated])
    have "Map_push key e (kv # m) = kv # Map_push key e m"
      using False kv by (simp add: Map_push_def)
    then show ?thesis using ih by (simp add: grouped_errors_def kv)
  qed
qed

lemma groupLoop_errors:
  assumes "distinct (map fst m)"
    and "groupErrorsByLocation_loop fs c es m = Inr m'"
  shows "distinct (map fst m') \<and> mset (grouped_errors m') = mset (grouped_errors m) + mset es"
  using assms
proof (induction es arbitrary: m)
  case Nil
  then show ?case by simp
next
  case (Cons e es)
  let ?key = "filePath e @ '':'' @ toString (line e - 1)"
  show ?case
  proof (cases "map_of m ?key")
    case (Some g)
    have d: "distinct (map fst (Map_push ?key e m))"
      using Cons.prems(1) by (simp add: Map_push_keys)
    have "groupErrorsByLocation_loop fs c es (Map_push ?key e m) = Inr m'"
      using Cons.prems(2) Some by (simp add: Let_def)
    from Cons.IH [OF d this] Map_push_errors [OF Cons.prems(1) Some, of e]
    show ?thesis by simp
  next
    case None
    then obtain cc where
      ctx: "formatCodeContext fs (filePath e) (line e - 1) c = Inr cc"
      using Cons.prems(2) by (auto simp: Let_def split: sum.splits)
    let ?m = "m @ [(?key, \<lparr>errors = [e], codeContext = cc\<rparr>)]"
    have "?key \<notin> fst ` set m" using None by (simp add: map_of_eq_None_iff)
    then have d: "distinct (map fst ?m)" using Cons.prems(1) by simp
    have "groupErrorsByLocation_loop fs c es ?m = Inr m'"
      using Cons.prems(2) None ctx by (simp add: Let_def)
    from Cons.IH [OF d this] show ?thesis by (simp add: grouped_errors_def)
  qed
qed

lemma groupErrorsByLocation_errors:
  assumes "groupErrorsByLocation fs errs c = Inr m"
  shows "mset (grouped_errors m) = mset (take MAX_ERRORS_PER_BATCH errs)"
proof -
  have "distinct (map fst ([] :: (string \<times> ErrorsWithContext) list))" by simp
  from groupLoop_errors [OF this assms [unfolded groupErrorsByLocation_def]]
  show ?thesis by (simp add: grouped_errors_def)
qed

lemma formatErrorsWithContext_same_batch:
  assumes "length errs = length errs'"
    and "take MAX_ERRORS_PER_BATCH errs = take MAX_ERRORS_PER_BATCH errs'"
  shows "formatErrorsWithContext errs project fs = formatErrorsWithContext errs' project fs"
  using assms by (simp add: formatErrorsWithContext_def groupErrorsByLocation_def)

text \<open>
  C10: the report holds the first 100 diagnostics of the list at most. It is
  built from a grouping whose diagnostics are exactly the first 100 of the
  list; when the list has more than 100, the report is that body behind a
  header that states the total count, and without the header otherwise; and
  two lists of the same length with the same first 100 diagnostics give the
  same report, so nothing past the first 100 reaches it.
\<close>

theorem C10_report_first_hundred:
  "(\<forall>report. formatErrorsWithContext errs project fs = Inr report \<longrightarrow>
      (\<exists>groups.
          groupErrorsByLocation fs errs (determineContextSize (length errs)) = Inr groups
        \<and> mset (grouped_errors groups) = mset (take 100 errs)
        \<and> length (grouped_errors groups) \<le> 100
        \<and> report = (if length errs > 100
                     then ''There are '' @ toString (int (length errs))
                            @ '' errors in total, here are the first 100:'' @ [newline, newline]
                            @ formatErrorGroups groups project
                     else formatErrorGroups groups project)))
   \<and> (\<forall>errs'. length errs' = length errs \<and> take 100 errs' = take 100 errs \<longrightarrow>
         formatErrorsWithContext errs' project fs = formatErrorsWithContext errs project fs)"
proof (intro conjI allI impI)
  fix report
  assume r: "formatErrorsWithContext errs project fs = Inr report"
  then obtain groups where
    g: "groupErrorsByLocation fs errs (determineContextSize (length errs)) = Inr groups"
    by (auto simp: formatErrorsWithContext_def Let_def split: sum.splits)
  have m: "mset (grouped_errors groups) = mset (take 100 errs)"
    using groupErrorsByLocation_errors [OF g] by (simp add: MAX_ERRORS_PER_BATCH_def)
  then have "length (grouped_errors groups) = length (take 100 errs)"
    by (rule mset_eq_length)
  then have l: "length (grouped_errors groups) \<le> 100" by simp
  have h: "toString (int MAX_ERRORS_PER_BATCH) = ''100''"
    by code_simp
  have bh: "batch_header (length errs)
              = ''There are '' @ toString (int (length errs))
                  @ '' errors in total, here are the first 100:'' @ [newline, newline]"
    unfolding batch_header_def h by simp
  have "report = (if length errs > MAX_ERRORS_PER_BATCH
                  then batch_header (length errs) @ formatErrorGroups groups project
                  else formatErrorGroups groups project)"
    using r g by (simp add: formatErrorsWithContext_def Let_def)
  then have "report = (if length errs > 100
                     then ''There are '' @ toString (int (length errs))
                            @ '' errors in total, here are the first 100:'' @ [newline, newline]
                            @ formatErrorGroups groups project
                     else formatErrorGroups groups project)"
    unfolding bh by (simp add: MAX_ERRORS_PER_BATCH_def)
  with g m l show "\<exists>groups.
          groupErrorsByLocation fs errs (determineContextSize (length errs)) = Inr groups
        \<and> mset (grouped_errors groups) = mset (take 100 errs)
        \<and> length (grouped_errors groups) \<le> 100
        \<and> report = (if length errs > 100
                     then ''There are '' @ toString (int (length errs))
                            @ '' errors in total, here are the first 100:'' @ [newline, newline]
                            @ formatErrorGroups groups project
                     else formatErrorGroups groups project)"
    by blast
next
  fix errs'
  assume "length errs' = length errs \<and> take 100 errs' = take 100 errs"
  then show "formatErrorsWithContext errs' project fs = formatErrorsWithContext errs project fs"
    by (intro formatErrorsWithContext_same_batch) (simp_all add: MAX_ERRORS_PER_BATCH_def)
qed

lemma formatCodeContext_returns:
  assumes "fp \<in> dom fs"
  shows "\<exists>cc. formatCodeContext fs fp l c = Inr cc"
  using assms by (auto simp: formatCodeContext_def readFile_def Let_def)

lemma groupLoop_returns:
  assumes "\<forall>e \<in> set es. filePath e \<in> dom fs"
  shows "\<exists>m'. groupErrorsByLocation_loop fs c es m = Inr m'"
  using assms
proof (induction es arbitrary: m)
  case Nil
  then show ?case by simp
next
  case (Cons e es)
  let ?key = "filePath e @ '':'' @ toString (line e - 1)"
  have ih: "\<And>m. \<exists>m'. groupErrorsByLocation_loop fs c es m = Inr m'"
    using Cons by simp
  show ?case
  proof (cases "map_of m ?key")
    case (Some g)
    with ih [of "Map_push ?key e m"] show ?thesis by (simp add: Let_def)
  next
    case None
    have "filePath e \<in> dom fs" using Cons.prems by simp
    from formatCodeContext_returns [OF this] obtain cc where
      "formatCodeContext fs (filePath e) (line e - 1) c = Inr cc" by blast
    with None ih [of "m @ [(?key, \<lparr>errors = [e], codeContext = cc\<rparr>)]"]
    show ?thesis by (simp add: Let_def)
  qed
qed

lemma formatErrorsWithContext_returns:
  assumes "\<forall>e \<in> set errs. filePath e \<in> dom fs"
  shows "\<exists>report. formatErrorsWithContext errs project fs = Inr report"
proof -
  have "\<forall>e \<in> set (take MAX_ERRORS_PER_BATCH errs). filePath e \<in> dom fs"
    using assms by (meson in_set_takeD)
  from groupLoop_returns [OF this] obtain m where
    "groupErrorsByLocation fs errs (determineContextSize (length errs)) = Inr m"
    unfolding groupErrorsByLocation_def by blast
  then show ?thesis by (simp add: formatErrorsWithContext_def Let_def)
qed

lemma scenario_report_exists:
  "\<exists>report. formatErrorsWithContext scenario_errors scenario_project scenario_files = Inr report"
  by (rule formatErrorsWithContext_returns)
     (simp add: scenario_errors_def scenario_error_def scenario_files_def)

theorem C10_report_first_hundred_witness:
  "(\<exists>groups.
      groupErrorsByLocation scenario_files scenario_errors 3 = Inr groups
    \<and> mset (grouped_errors groups) = mset scenario_errors
    \<and> formatErrorsWithContext scenario_errors scenario_project scenario_files
        = Inr (formatErrorGroups groups scenario_project))
   \<and> formatErrorsWithContext (replicate 100 (scenario_error pathC 1) @ [scenario_error pathB 1])
        scenario_project scenario_files
     = formatErrorsWithContext (replicate 100 (scenario_error pathC 1) @ [scenario_error pathB 2])
        scenario_project scenario_files"
proof -
  let ?long = "replicate 100 (scenario_error pathC 1) @ [scenario_error pathB 2]"
  let ?long' = "replicate 100 (scenario_error pathC 1) @ [scenario_error pathB 1]"
  note inst = C10_report_first_hundred [of scenario_errors scenario_project scenario_files]
  note inst' = C10_report_first_hundred [of ?long scenario_project scenario_files]
  obtain report where
    r: "formatErrorsWithContext scenario_errors scenario_project scenario_files = Inr report"
    using scenario_report_exists by blast
  have l: "length scenario_errors = 3" by (simp add: scenario_errors_def)
  have c: "determineContextSize 3 = 3" by (simp add: determineContextSize_def)
  from inst [THEN conjunct1, THEN spec, THEN mp, OF r]
  obtain groups where
    g: "groupErrorsByLocation scenario_files scenario_errors (determineContextSize (length scenario_errors))
       = Inr groups"
    and m: "mset (grouped_errors groups) = mset (take 100 scenario_errors)"
    and rep: "report = (if length scenario_errors > 100
                     then ''There are '' @ toString (int (length scenario_errors))
                            @ '' errors in total, here are the first 100:'' @ [newline, newline]
                            @ formatErrorGroups groups scenario_project
                     else formatErrorGroups groups scenario_project)"
    by blast
  from g have g': "groupErrorsByLocation scenario_files scenario_errors 3 = Inr groups"
    by (simp only: l c)
  from m have m': "mset (grouped_errors groups) = mset scenario_errors"
    by (simp add: l)
  from rep have "report = formatErrorGroups groups scenario_project"
    by (simp only: l) simp
  with r have r': "formatErrorsWithContext scenario_errors scenario_project scenario_files
        = Inr (formatErrorGroups groups scenario_project)"
    by simp
  from g' m' r' have 1: "\<exists>groups.
      groupErrorsByLocation scenario_files scenario_errors 3 = Inr groups
    \<and> mset (grouped_errors groups) = mset scenario_errors
    \<and> formatErrorsWithContext scenario_errors scenario_project scenario_files
        = Inr (formatErrorGroups groups scenario_project)"
    by blast
  have "length ?long' = length ?long \<and> take 100 ?long' = take 100 ?long"
    by simp
  from inst' [THEN conjunct2, THEN spec, THEN mp, OF this]
  have 2: "formatErrorsWithContext ?long' scenario_project scenario_files
     = formatErrorsWithContext ?long scenario_project scenario_files" .
  from 1 2 show ?thesis by (rule conjI)
qed

section \<open>The controller and the errors of the oracle\<close>







lemma handleClaudeError_calls:
  "oracleCalls (snd (handleClaudeError a e)) = oracleCalls a"
  by (cases e; cases "agent_filePath a")
     (auto simp: handleClaudeError_def split: sum.splits)












section \<open>The iteration cap\<close>

lemma checkErrors_calls: "oracleCalls (snd (checkErrors env a)) = oracleCalls a"
  by (simp add: checkErrors_def split: sum.splits)

lemma runClaudeCode_calls: "oracleCalls (snd (runClaudeCode env a prompt)) = oracleCalls a + 1"
  by (simp add: runClaudeCode_def Let_def split: prod.splits sum.splits)

lemma fixErrors_calls: "oracleCalls (snd (fixErrors env a errs)) \<le> oracleCalls a + 1"
proof (cases "formatErrorsWithContext errs (agent_project env) (fileSystem a)")
  case (Inl e)
  then show ?thesis by (simp add: fixErrors_def)
next
  case (Inr formattedErrors)
  show ?thesis
  proof (cases "buildPrompt env a formattedErrors")
    case (Inl e)
    with Inr show ?thesis by (simp add: fixErrors_def)
  next
    case p: (Inr prompt)
    obtain outcome a1 where r: "runClaudeCode env a prompt = (outcome, a1)"
      by (cases "runClaudeCode env a prompt")
    then have c: "oracleCalls a1 = oracleCalls a + 1"
      using runClaudeCode_calls [of env a prompt] by simp
    show ?thesis
    proof (cases outcome)
      case (Inl e)
      with Inr p r c handleClaudeError_calls [of a1 e] show ?thesis
        by (simp add: fixErrors_def)
    next
      case (Inr u)
      with \<open>formatErrorsWithContext errs (agent_project env) (fileSystem a) = Inr formattedErrors\<close>
        p r c show ?thesis by (simp add: fixErrors_def)
    qed
  qed
qed

lemma loop_calls:
  "iteration \<le> Suc maxIterations \<Longrightarrow>
   oracleCalls (snd (runFixingIterations_loop env maxIterations iteration errs a)) + iteration
     \<le> oracleCalls a + Suc maxIterations"
proof (induction env maxIterations iteration errs a rule: runFixingIterations_loop.induct)
  case (1 env maxIterations iteration errs a)
  show ?case
  proof (cases "iteration \<le> maxIterations")
    case False
    with "1.prems" show ?thesis
      by (subst runFixingIterations_loop.simps) simp
  next
    case True
    obtain o1 a1 where f: "fixErrors env (a\<lparr>stats_iterations := iteration\<rparr>) errs = (o1, a1)"
      by (cases "fixErrors env (a\<lparr>stats_iterations := iteration\<rparr>) errs")
    have c1: "oracleCalls a1 \<le> oracleCalls a + 1"
      using fixErrors_calls [of env "a\<lparr>stats_iterations := iteration\<rparr>" errs] f by simp
    show ?thesis
    proof (cases o1)
      case (Inl e)
      with True f c1 show ?thesis
        by (subst runFixingIterations_loop.simps) simp
    next
      case (Inr u)
      obtain o2 a2 where k: "checkErrors env a1 = (o2, a2)" by (cases "checkErrors env a1")
      have c2: "oracleCalls a2 = oracleCalls a1"
        using checkErrors_calls [of env a1] k by simp
      show ?thesis
      proof (cases o2)
        case (Inl e)
        with True f Inr k c1 c2 show ?thesis
          by (subst runFixingIterations_loop.simps) simp
      next
        case r: (Inr errs1)
        show ?thesis
        proof (cases "length errs1 = 0")
          case z: True
          with True f Inr k r c1 c2 show ?thesis
            by (subst runFixingIterations_loop.simps) simp
        next
          case nz: False
          let ?a3 = "if iteration mod MAX_ITERATIONS_PER_100_ERRORS = 0
                     then a2\<lparr>stats_remainingErrorCount := length errs1, sessionId := None\<rparr>
                     else a2\<lparr>stats_remainingErrorCount := length errs1\<rparr>"
          have ih: "oracleCalls (snd (runFixingIterations_loop env maxIterations (iteration + 1) errs1 ?a3))
                      + (iteration + 1) \<le> oracleCalls ?a3 + Suc maxIterations"
            using "1.IH" [OF True f [symmetric] Inr k [symmetric] r nz] True by simp
          have c3: "oracleCalls ?a3 = oracleCalls a2" by simp
          have e: "runFixingIterations_loop env maxIterations iteration errs a
                    = runFixingIterations_loop env maxIterations (iteration + 1) errs1 ?a3"
            using True f Inr k r nz by (subst runFixingIterations_loop.simps) simp
          from ih c1 c2 c3 show ?thesis unfolding e by linarith
        qed
      qed
    qed
  qed
qed

lemma runFixingIterations_calls:
  "oracleCalls (snd (runFixingIterations env a initialErrors))
     \<le> oracleCalls a + calculateMaxIterations (length initialErrors)"
  using loop_calls [of 1 "calculateMaxIterations (length initialErrors)" env initialErrors
      "a\<lparr>stats_initialErrorCount := length initialErrors\<rparr>"]
  by (simp add: runFixingIterations_def)


lemma ceil_div_100: "- (- x div 100) = (x + 99) div (100::int)"
proof -
  define q r where "q = x div 100" and "r = x mod 100"
  have x: "x = 100 * q + r" and r: "0 \<le> r" "r < 100"
    by (simp_all add: q_def r_def)
  have l: "- x div 100 = (if r = 0 then - q else - q - 1)"
    unfolding q_def r_def by (simp add: zdiv_zminus1_eq_if)
  have "(x + 99) div 100 = (if r = 0 then q else q + 1)"
  proof (cases "r = 0")
    case True
    then show ?thesis using x by simp
  next
    case False
    then have "1 \<le> r" using r by simp
    have "x + 99 = (q + 1) * 100 + (r - 1)" using x by simp
    moreover have "0 \<le> r - 1" "r - 1 < 100" using \<open>1 \<le> r\<close> r by simp_all
    ultimately have "(x + 99) div 100 = q + 1"
      by (metis div_mult_self3 div_pos_pos_trivial add.commute add_0 zero_neq_numeral)
    with False show ?thesis by simp
  qed
  with l show ?thesis by simp
qed

lemma spec_cap_div: "spec_cap n = (if n < 100 then 5 else (n * 5 + 99) div 100)"
proof (cases "n < 100")
  case True
  then show ?thesis by (simp add: spec_cap_def)
next
  case False
  have "\<lceil>real (n * 5) / 100\<rceil> = \<lceil>real_of_int (int (n * 5)) / real_of_int 100\<rceil>"
    by simp
  also have "\<dots> = - (- int (n * 5) div 100)"
    by (simp only: ceiling_divide_eq_div)
  also have "\<dots> = (int (n * 5) + 99) div 100"
    by (rule ceil_div_100)
  also have "\<dots> = int ((n * 5 + 99) div 100)"
    by (simp add: zdiv_int)
  finally have "nat \<lceil>real (n * 5) / 100\<rceil> = (n * 5 + 99) div 100"
    by simp
  with False show ?thesis by (simp add: spec_cap_def)
qed

lemma floor_5_per_100: "n * 5 div 100 = n div (20::nat)"
proof -
  have "n * 5 div 100 = (5 * n) div (5 * 20)" by (simp add: mult.commute)
  also have "\<dots> = n div 20" by (rule div_mult_mult1) simp
  finally show ?thesis .
qed

lemma ceil_5_per_100: "(n * 5 + 99) div 100 = n div 20 + (if n mod 20 = 0 then 0 else (1::nat))"
proof -
  define q r where "q = n div 20" and "r = n mod 20"
  have n: "n = 20 * q + r" and r: "r < 20" by (simp_all add: q_def r_def)
  show ?thesis
  proof (cases "r = 0")
    case True
    then have "n * 5 + 99 = q * 100 + 99" using n by simp
    then have "(n * 5 + 99) div 100 = q" by simp
    with True show ?thesis by (simp add: q_def r_def)
  next
    case False
    then have "n * 5 + 99 = (q + 1) * 100 + (5 * r - 1)" using n by simp
    moreover have "5 * r - 1 < 100" using r by simp
    ultimately have "(n * 5 + 99) div 100 = q + 1"
      by (metis div_mult_self3 div_less add.commute add_0 zero_neq_numeral)
    with False show ?thesis by (simp add: q_def r_def)
  qed
qed

text \<open>
  C1, as stated, fails: for 250 initial diagnostics the code computes
  \<open>floor(250 * 5 / 100) = 12\<close>, while the claim and its formula
  \<open>ceil(250 * 5 / 100)\<close> give 13.
\<close>

theorem C1_counterexample:
  "calculateMaxIterations 250 = 12 \<and> spec_cap 250 = 13 \<and> calculateMaxIterations 250 \<noteq> spec_cap 250"
  by (simp add: calculateMaxIterations_def MAX_ITERATIONS_PER_100_ERRORS_def spec_cap_div)

text \<open>
  C1, amended: the iteration cap is 5 when the initial diagnostic count is
  below 100 and \<open>floor(count * 5 / 100)\<close> otherwise; 40 initial errors give
  cap 5 and 250 initial errors give cap 12. The cap never exceeds the value
  \<open>spec_cap\<close> of the specification (5 below 100, \<open>ceil(count * 5 / 100)\<close>
  otherwise), and the two are equal exactly for the counts that are below 100
  or a multiple of 20. The cap is the bound of the loop:
  \<open>runFixingIterations\<close> calls the oracle at most that many times.
\<close>

theorem C1_iteration_cap:
  "calculateMaxIterations n = (if n < 100 then 5 else n * 5 div 100)
   \<and> calculateMaxIterations 40 = 5
   \<and> calculateMaxIterations 250 = 12
   \<and> calculateMaxIterations n \<le> spec_cap n
   \<and> (calculateMaxIterations n = spec_cap n \<longleftrightarrow> n < 100 \<or> n mod 20 = 0)
   \<and> oracleCalls (snd (runFixingIterations env a initialErrors))
       \<le> oracleCalls a + calculateMaxIterations (length initialErrors)"
proof -
  have c: "calculateMaxIterations k = (if k < 100 then 5 else k * 5 div 100)" for k
    by (simp add: calculateMaxIterations_def MAX_ITERATIONS_PER_100_ERRORS_def)
  have c40: "calculateMaxIterations 40 = 5" and c250: "calculateMaxIterations 250 = 12"
    by (simp_all add: c)
  have le: "calculateMaxIterations n \<le> spec_cap n"
    unfolding c spec_cap_div by (simp add: floor_5_per_100 ceil_5_per_100)
  have eq: "calculateMaxIterations n = spec_cap n \<longleftrightarrow> n < 100 \<or> n mod 20 = 0"
    unfolding c spec_cap_div by (simp add: floor_5_per_100 ceil_5_per_100)
  have calls: "oracleCalls (snd (runFixingIterations env a initialErrors))
       \<le> oracleCalls a + calculateMaxIterations (length initialErrors)"
    by (rule runFixingIterations_calls)
  from c [of n] c40 c250 le eq calls show ?thesis by (intro conjI)
qed

theorem C1_iteration_cap_witness:
  "calculateMaxIterations 120 = 6 \<and> spec_cap 120 = 6 \<and> calculateMaxIterations 119 = 5 \<and> spec_cap 119 = 6"
  using C1_iteration_cap [of 120] C1_iteration_cap [of 119]
  by (simp add: spec_cap_div)

end
